theory Spec2Isabelle
  imports Complex_Main "HOL-Library.Log_Nat" "HOL-Library.Word"
begin

section \<open>JavaScript numbers\<close>

text \<open>
  The download routine of \<^verbatim>\<open>src/index.js\<close> computes its progress with JavaScript
  numbers: IEEE 754 binary64 values. The cases that decide its behaviour are exactly the
  ones a model in the integers would lose: \<^verbatim>\<open>parseInt\<close> of a missing header is NaN, a
  division by zero is an infinity, and \<^verbatim>\<open>NaN != NaN\<close> is true. A number is therefore NaN,
  an infinity, the negative zero, or a finite value held as the rational it denotes
  (\<open>Fin 0\<close> is the positive zero). Every arithmetic result is rounded to the nearest
  double, ties to even.
\<close>

datatype jsnum = NaN | PosInf | NegInf | NegZero | Fin rat

fun val :: "jsnum \<Rightarrow> rat" where
  "val (Fin q) = q"
| "val _ = 0"

fun is_inf :: "jsnum \<Rightarrow> bool" where
  "is_inf PosInf = True"
| "is_inf NegInf = True"
| "is_inf _ = False"

fun is_zero :: "jsnum \<Rightarrow> bool" where
  "is_zero NegZero = True"
| "is_zero (Fin q) = (q = 0)"
| "is_zero _ = False"

fun sign_neg :: "jsnum \<Rightarrow> bool" where
  "sign_neg NegInf = True"
| "sign_neg NegZero = True"
| "sign_neg (Fin q) = (q < 0)"
| "sign_neg _ = False"

definition signed_inf :: "bool \<Rightarrow> jsnum" where
  "signed_inf neg = (if neg then NegInf else PosInf)"

definition signed_zero :: "bool \<Rightarrow> jsnum" where
  "signed_zero neg = (if neg then NegZero else Fin 0)"

subsection \<open>Rounding to the nearest double\<close>

definition binade :: "rat \<Rightarrow> int" where
  \<comment> \<open>the exponent \<open>e\<close> with \<open>2^e \<le> q < 2^(e+1)\<close>, for \<open>q > 0\<close>\<close>
  "binade q =
     (let (a, b) = quotient_of q; k = bitlen a - bitlen b
      in if 2 powi k \<le> q then k else k - 1)"

definition quantum :: "rat \<Rightarrow> rat" where
  \<comment> \<open>the spacing of the doubles around \<open>q > 0\<close>: 53 significant bits, and the
      subnormal spacing \<open>2^-1074\<close> below \<open>2^-1022\<close>\<close>
  "quantum q = 2 powi (max (binade q) (- 1022) - 52)"

definition rne :: "rat \<Rightarrow> int" where
  \<comment> \<open>round to the nearest integer, a tie to the even one\<close>
  "rne x =
     (let f = \<lfloor>x\<rfloor>; r = x - of_int f
      in if r < 1 / 2 then f else if 1 / 2 < r then f + 1
         else if even f then f else f + 1)"

definition round_mag :: "rat \<Rightarrow> rat" where
  "round_mag q = of_int (rne (q / quantum q)) * quantum q"

definition rd :: "rat \<Rightarrow> jsnum" where
  "rd q =
     (if q = 0 then Fin 0
      else let m = round_mag \<bar>q\<bar>
           in if 2 ^ 1024 \<le> m then signed_inf (q < 0)
              else if m = 0 then signed_zero (q < 0)
              else Fin (if q < 0 then - m else m))"

subsection \<open>Operators\<close>

definition js_neg :: "jsnum \<Rightarrow> jsnum" where
  "js_neg a =
     (case a of NaN \<Rightarrow> NaN | PosInf \<Rightarrow> NegInf | NegInf \<Rightarrow> PosInf
      | NegZero \<Rightarrow> Fin 0 | Fin q \<Rightarrow> (if q = 0 then NegZero else Fin (- q)))"

definition js_add :: "jsnum \<Rightarrow> jsnum \<Rightarrow> jsnum" where
  "js_add a b =
     (if a = NaN \<or> b = NaN then NaN
      else if is_inf a \<and> is_inf b then (if a = b then a else NaN)
      else if is_inf a then a
      else if is_inf b then b
      else if val a + val b = 0 then signed_zero (a = NegZero \<and> b = NegZero)
      else rd (val a + val b))"

definition js_sub :: "jsnum \<Rightarrow> jsnum \<Rightarrow> jsnum" where
  "js_sub a b = js_add a (js_neg b)"

definition js_mul :: "jsnum \<Rightarrow> jsnum \<Rightarrow> jsnum" where
  "js_mul a b =
     (if a = NaN \<or> b = NaN then NaN
      else if is_inf a \<or> is_inf b then
        (if is_zero a \<or> is_zero b then NaN else signed_inf (sign_neg a \<noteq> sign_neg b))
      else if val a * val b = 0 then signed_zero (sign_neg a \<noteq> sign_neg b)
      else rd (val a * val b))"

definition js_div :: "jsnum \<Rightarrow> jsnum \<Rightarrow> jsnum" where
  "js_div a b =
     (if a = NaN \<or> b = NaN then NaN
      else if is_inf a then (if is_inf b then NaN else signed_inf (sign_neg a \<noteq> sign_neg b))
      else if is_inf b then signed_zero (sign_neg a \<noteq> sign_neg b)
      else if is_zero b then (if is_zero a then NaN else signed_inf (sign_neg a \<noteq> sign_neg b))
      else if is_zero a then signed_zero (sign_neg a \<noteq> sign_neg b)
      else rd (val a / val b))"

definition js_mod :: "jsnum \<Rightarrow> jsnum \<Rightarrow> jsnum" where
  \<comment> \<open>\<^verbatim>\<open>a % b\<close>: the remainder of the truncating division, exact, with the sign of \<open>a\<close>\<close>
  "js_mod a b =
     (if a = NaN \<or> b = NaN \<or> is_inf a \<or> is_zero b then NaN
      else if is_inf b \<or> is_zero a then a
      else let q = val a / val b;
               t = (if q < 0 then \<lceil>q\<rceil> else \<lfloor>q\<rfloor>);
               r = val a - val b * of_int t
           in if r = 0 then signed_zero (sign_neg a) else Fin r)"

definition js_floor :: "jsnum \<Rightarrow> jsnum" where
  "js_floor a = (case a of Fin q \<Rightarrow> Fin (of_int \<lfloor>q\<rfloor>) | _ \<Rightarrow> a)"

definition js_ceil :: "jsnum \<Rightarrow> jsnum" where
  "js_ceil a =
     (case a of Fin q \<Rightarrow> (if \<lceil>q\<rceil> = 0 \<and> q < 0 then NegZero else Fin (of_int \<lceil>q\<rceil>))
      | _ \<Rightarrow> a)"

fun js_lt :: "jsnum \<Rightarrow> jsnum \<Rightarrow> bool" where
  "js_lt NaN _ = False"
| "js_lt _ NaN = False"
| "js_lt PosInf _ = False"
| "js_lt _ PosInf = True"
| "js_lt _ NegInf = False"
| "js_lt NegInf _ = True"
| "js_lt a b = (val a < val b)"

definition js_gt :: "jsnum \<Rightarrow> jsnum \<Rightarrow> bool" where
  "js_gt a b = js_lt b a"

definition js_ge :: "jsnum \<Rightarrow> jsnum \<Rightarrow> bool" where
  "js_ge a b = (a \<noteq> NaN \<and> b \<noteq> NaN \<and> \<not> js_lt a b)"

definition js_neq :: "jsnum \<Rightarrow> jsnum \<Rightarrow> bool" where
  \<comment> \<open>\<^verbatim>\<open>a != b\<close> on numbers: NaN differs from everything, itself included, and the two
      zeros are equal\<close>
  "js_neq a b = (a = NaN \<or> b = NaN \<or> (a \<noteq> b \<and> \<not> (is_zero a \<and> is_zero b)))"

section \<open>The transfer state and the progress bar\<close>

text \<open>
  A chunk of body data is a Node \<^verbatim>\<open>Buffer\<close>: a sequence of bytes. Its \<^verbatim>\<open>byteLength\<close> is
  below \<open>2^53\<close> (the largest length a Buffer can have), hence a double.
\<close>

type_synonym buffer = "8 word list"

definition byteLength :: "buffer \<Rightarrow> jsnum" where
  "byteLength data = Fin (of_nat (length data))"

text \<open>
  Text written to the terminal is a list of Unicode code points. The size suffix of the
  bar is built by \<^verbatim>\<open>formatSize\<close>, whose decimal formatting is not modelled: the suffix is
  carried as the numbers it is formatted from.
\<close>

datatype piece = Str "nat list" | FormatSize jsnum

type_synonym jsstring = "piece list"

datatype error =
    InvalidURL string
  | InvalidProtocol string
  | RequestError string
  | UnexpectedStatus nat string
  | RequestAborted
  | SinkError string
  | WriteTypeError

record state =
  doneSize :: jsnum
  totalSize :: jsnum
  currentDots :: jsnum
  totalDots :: jsnum
  prefix :: string

definition theme_chunks :: "nat list" where
  \<comment> \<open>a space, then the left one-eighth block to the full block, U+258F down to U+2588\<close>
  "theme_chunks = [0x20, 0x258F, 0x258E, 0x258D, 0x258C, 0x258B, 0x258A, 0x2589, 0x2588]"

definition theme_start :: nat where "theme_start = 0x2590"
definition theme_end :: nat where "theme_end = 0x258C"
definition theme_filler :: nat where "theme_filler = 0x20"

definition chunks_at :: "jsnum \<Rightarrow> nat option" where
  \<comment> \<open>\<^verbatim>\<open>theme.chunks[chunk]\<close>: an element for an integer index in range, else
      \<^verbatim>\<open>undefined\<close>\<close>
  "chunks_at c =
     (case c of
        Fin q \<Rightarrow> (if of_int \<lfloor>q\<rfloor> = q \<and> 0 \<le> q \<and> q < 9
                  then Some (theme_chunks ! nat \<lfloor>q\<rfloor>) else None)
      | NegZero \<Rightarrow> Some (theme_chunks ! 0)
      | _ \<Rightarrow> None)"

text \<open>
  The two loops of \<^verbatim>\<open>showProgress\<close>. Each call of \<^verbatim>\<open>process.stdout.write\<close> adds one
  text to the writes; writing \<^verbatim>\<open>undefined\<close> throws a TypeError. A loop that does not
  end has the value \<open>None\<close>.
\<close>

partial_function (option) draw_units ::
  "jsnum \<Rightarrow> jsnum \<Rightarrow> jsstring list \<Rightarrow> (error + jsnum \<times> jsstring list) option" where
  "draw_units units remainWidth ws =
     (if js_gt units (Fin 0) then
        (let chunk = (if js_ge units (Fin 8) then Fin 8 else js_mod units (Fin 8))
         in case chunks_at chunk of
              None \<Rightarrow> Some (Inl WriteTypeError)
            | Some char \<Rightarrow>
                draw_units (js_sub units chunk) (js_sub remainWidth (Fin 1))
                  (ws @ [[Str [char]]]))
      else Some (Inr (remainWidth, ws)))"

declare draw_units.simps [code]

partial_function (option) draw_filler :: "jsnum \<Rightarrow> jsstring list \<Rightarrow> jsstring list option" where
  "draw_filler remainWidth ws =
     (if js_gt remainWidth (Fin 0)
      then draw_filler (js_sub remainWidth (Fin 1)) (ws @ [[Str [theme_filler]]])
      else Some ws)"

declare draw_filler.simps [code]

definition suffix :: "state \<Rightarrow> jsstring" where
  "suffix st = [FormatSize (doneSize st), Str [0x20, 0x2F, 0x20], FormatSize (totalSize st)]"

definition showProgress :: "state \<Rightarrow> (error + jsstring list) option" where
  "showProgress st =
     Option.bind
       (draw_units (currentDots st) (js_ceil (js_div (totalDots st) (Fin 8)))
          [[Str [0x0D, theme_start]]])
       (\<lambda>r. case r of
          Inl e \<Rightarrow> Some (Inl e)
        | Inr (remainWidth, ws) \<Rightarrow>
            Option.bind (draw_filler remainWidth ws)
              (\<lambda>ws'. Some (Inr (ws' @ [Str [theme_end, 0x20] # suffix st]))))"

text \<open>
  Everything the routine does to the outside, in the order it does it, together with
  the events it is handed.
\<close>

datatype message =
    RedirectedTo string
  | GotError string
  | IOError string
  | RequestAbortedWarning
  | Downloaded jsnum

datatype event =
    Data buffer
  | ResClose
  | Aborted
  | OutClose
  | OutError string
  | ReqError string

datatype action =
    Delivered event
  | Request string
  | Destroy string
  | Stdout jsstring
  | SinkWrite buffer
  | SinkClose
  | ConsoleLog message
  | ConsoleWarn message
  | Uncaught error

partial_function (option) render_loop ::
  "jsnum \<Rightarrow> state \<Rightarrow> action list \<Rightarrow> (error + state \<times> action list) option" where
  "render_loop currentDots' st tr =
     (if js_neq (currentDots st) currentDots' then
        Option.bind (showProgress (st\<lparr>currentDots := currentDots'\<rparr>))
          (\<lambda>r. case r of
             Inl e \<Rightarrow> Some (Inl e)
           | Inr ws \<Rightarrow>
               render_loop currentDots' (st\<lparr>currentDots := currentDots'\<rparr>)
                 (tr @ map Stdout ws))
      else Some (Inr (st, tr)))"

declare render_loop.simps [code]

definition onData ::
  "buffer \<Rightarrow> state \<Rightarrow> action list \<Rightarrow> (error + state \<times> action list) option" where
  "onData data st tr =
     (let st1 = st\<lparr>doneSize := js_add (doneSize st) (byteLength data)\<rparr>;
          currentDots' =
            js_floor (js_mul (js_div (doneSize st1) (totalSize st1)) (totalDots st1))
      in Option.bind (render_loop currentDots' st1 tr)
           (\<lambda>r. case r of
              Inl e \<Rightarrow> Some (Inl e)
            | Inr (st2, tr2) \<Rightarrow> Some (Inr (st2, tr2 @ [SinkWrite data]))))"

section \<open>The download\<close>

subsection \<open>The declared size\<close>

text \<open>
  \<^verbatim>\<open>parseInt(contentLength, 10)\<close>: leading white space is skipped, then an optional
  sign, then the longest run of decimal digits is read; no digit at all gives NaN. A
  header value is a string of Latin-1 characters, of which these are white space.
\<close>

definition is_space :: "char \<Rightarrow> bool" where
  "is_space c = (of_char c \<in> {9, 10, 11, 12, 13, 32, 160 :: nat})"

definition is_digit :: "char \<Rightarrow> bool" where
  "is_digit c = (48 \<le> (of_char c :: nat) \<and> (of_char c :: nat) \<le> 57)"

definition digits_val :: "string \<Rightarrow> int" where
  "digits_val Z = foldl (\<lambda>n c. 10 * n + (of_char c - 48)) 0 Z"

definition parseInt :: "string \<Rightarrow> jsnum" where
  "parseInt inputString =
     (let S = dropWhile is_space inputString;
          neg = (S \<noteq> [] \<and> hd S = CHR ''-'');
          S' = (if S \<noteq> [] \<and> (hd S = CHR ''+'' \<or> hd S = CHR ''-'') then tl S else S);
          Z = takeWhile is_digit S'
      in if Z = [] then NaN
         else if digits_val Z = 0 then signed_zero neg
         else rd (if neg then - of_int (digits_val Z) else of_int (digits_val Z)))"

subsection \<open>The network and the sink\<close>

text \<open>
  What the routine is given from outside. A response carries the two headers the routine
  reads, its status code, and the events that reach the handlers once they are
  registered: those of the response (\<open>Data\<close>, \<open>ResClose\<close>, \<open>Aborted\<close>), of the sink
  (\<open>OutClose\<close>, \<open>OutError\<close>) and of the request (\<open>ReqError\<close>), in the order of their
  delivery. \<^verbatim>\<open>new URL\<close> is a parameter: \<open>None\<close> where it throws, else the parts of the
  URL the routine uses.
\<close>

record url_parts =
  protocol :: string
  hostname :: string

record response =
  location :: "string option"
  content_length :: "string option"
  statusCode :: nat
  events :: "event list"

datatype reply = Failed string | Responded response

record env =
  verbose :: bool
  parseURL :: "string \<Rightarrow> url_parts option"
  server :: "string \<Rightarrow> reply"

datatype promise = Pending | Resolved | Rejected error

definition https_request :: "env \<Rightarrow> string \<Rightarrow> error + reply" where
  \<comment> \<open>\<^verbatim>\<open>https.request(url, {method: "GET"}, ...)\<close> of Node: it parses the URL and throws
      unless the protocol is \<^verbatim>\<open>https:\<close>; a throw in the executor rejects the promise\<close>
  "https_request env url =
     (case parseURL env url of
        None \<Rightarrow> Inl (InvalidURL url)
      | Some u \<Rightarrow>
          if protocol u \<noteq> ''https:'' then Inl (InvalidProtocol (protocol u))
          else Inr (server env url))"

definition debug :: "env \<Rightarrow> message \<Rightarrow> action list" where
  "debug env m = (if \<not> verbose env then [] else [ConsoleLog m])"

fun redirect_target :: "string option \<Rightarrow> string option" where
  \<comment> \<open>\<^verbatim>\<open>if (redirectURL)\<close>: a header that is absent or empty is falsy\<close>
  "redirect_target None = None"
| "redirect_target (Some redirectURL) = (if redirectURL = [] then None else Some redirectURL)"

subsection \<open>The handlers\<close>

definition completion :: "env \<Rightarrow> state \<Rightarrow> action list" where
  \<comment> \<open>the code after the awaited promise: the line is blanked, then the throughput is
      reported, whose text (elapsed time, formatted sizes) is not modelled\<close>
  "completion env st =
     Stdout [Str (13 # replicate 55 32 @ [13])] # debug env (Downloaded (totalSize st))"

definition settle :: "promise \<Rightarrow> promise \<Rightarrow> promise" where
  \<comment> \<open>\<^verbatim>\<open>resolve\<close> and \<^verbatim>\<open>reject\<close> act on a pending promise only\<close>
  "settle p new = (if p = Pending then new else p)"

text \<open>
  The events are handled one after the other. An exception thrown by a handler is
  uncaught and ends the process: no later event is handled (the writes of the
  interrupted rendering are not kept in the trace). The continuation of the awaited
  promise runs right after the handler that resolved it.
\<close>

fun deliver ::
  "env \<Rightarrow> event list \<Rightarrow> state \<Rightarrow> promise \<Rightarrow> action list
     \<Rightarrow> (state \<times> promise \<times> action list) option" where
  "deliver env [] st p tr = Some (st, p, tr)"
| "deliver env (Data data # es) st p tr =
     (case onData data st (tr @ [Delivered (Data data)]) of
        None \<Rightarrow> None
      | Some (Inl e) \<Rightarrow> Some (st, p, tr @ [Delivered (Data data), Uncaught e])
      | Some (Inr (st', tr')) \<Rightarrow> deliver env es st' p tr')"
| "deliver env (ResClose # es) st p tr =
     deliver env es st p (tr @ [Delivered ResClose, SinkClose])"
| "deliver env (OutClose # es) st p tr =
     deliver env es st (settle p Resolved)
       (tr @ Delivered OutClose # (if p = Pending then completion env st else []))"
| "deliver env (OutError e # es) st p tr =
     deliver env es st (settle p (Rejected (SinkError e)))
       (tr @ [Delivered (OutError e), ConsoleWarn (IOError e)])"
| "deliver env (Aborted # es) st p tr =
     deliver env es st (settle p (Rejected RequestAborted))
       (tr @ [Delivered Aborted, ConsoleWarn RequestAbortedWarning])"
| "deliver env (ReqError e # es) st p tr =
     deliver env es st p (tr @ [Delivered (ReqError e), ConsoleLog (GotError e)])"

subsection \<open>downloadToStream\<close>

definition initial_state :: "response \<Rightarrow> state" where
  "initial_state res =
     (let contentLength = (case content_length res of None \<Rightarrow> [] | Some v \<Rightarrow> v)
      in \<lparr>doneSize = Fin 0, totalSize = parseInt contentLength, currentDots = Fin 0,
          totalDots = Fin 100, prefix = []\<rparr>)"

definition transfer ::
  "env \<Rightarrow> string \<Rightarrow> response \<Rightarrow> action list \<Rightarrow> (promise \<times> action list) option" where
  \<comment> \<open>the routine from the status check on, for a response with no redirect target\<close>
  "transfer env url res tr =
     (if statusCode res \<noteq> 200 then Some (Rejected (UnexpectedStatus (statusCode res) url), tr)
      else
        Option.bind (showProgress (initial_state res))
          (\<lambda>r. case r of
             Inl e \<Rightarrow> Some (Rejected e, tr)
           | Inr ws \<Rightarrow>
               map_option snd
                 (deliver env (events res) (initial_state res) Pending (tr @ map Stdout ws))))"

text \<open>
  The result is the state in which the returned promise is left, with the trace; \<open>None\<close>
  when the routine never comes back: a handler that loops, or redirects without end.
\<close>

partial_function (option) downloadToStream ::
  "env \<Rightarrow> string \<Rightarrow> action list \<Rightarrow> (promise \<times> action list) option" where
  "downloadToStream env url tr =
     (case https_request env url of
        Inl e \<Rightarrow> Some (Rejected e, tr)
      | Inr (Failed e) \<Rightarrow>
          Some (Rejected (RequestError e), tr @ [Request url, ConsoleLog (GotError e)])
      | Inr (Responded res) \<Rightarrow>
          (case redirect_target (location res) of
             Some redirectURL \<Rightarrow>
               (case parseURL env redirectURL of
                  None \<Rightarrow> Some (Rejected (InvalidURL redirectURL), tr @ [Request url])
                | Some u \<Rightarrow>
                    downloadToStream env redirectURL
                      (tr @ Request url # debug env (RedirectedTo (hostname u)) @ [Destroy url]))
           | None \<Rightarrow> transfer env url res (tr @ [Request url])))"

declare downloadToStream.simps [code]

section \<open>Observations\<close>

text \<open>
  What a trace shows: the chunks written to the sink, the URLs requested, the events
  handed to the handlers (the only way anything of a response's body is read) and the
  URLs whose response was destroyed, each in order.
  The progress report of the routine is the line \<open>Downloaded\<close>. A number is integral when
  it is not a finite fraction. \<open>states_after\<close> collects the transfer state after each of
  a sequence of chunks, when every call of \<^verbatim>\<open>onData\<close> returns.
\<close>

fun sink_writes :: "action list \<Rightarrow> buffer list" where
  "sink_writes [] = []"
| "sink_writes (SinkWrite data # tr) = data # sink_writes tr"
| "sink_writes (_ # tr) = sink_writes tr"

fun requests :: "action list \<Rightarrow> string list" where
  "requests [] = []"
| "requests (Request url # tr) = url # requests tr"
| "requests (_ # tr) = requests tr"

fun delivered :: "action list \<Rightarrow> event list" where
  "delivered [] = []"
| "delivered (Delivered e # tr) = e # delivered tr"
| "delivered (_ # tr) = delivered tr"

fun destroyed :: "action list \<Rightarrow> string list" where
  "destroyed [] = []"
| "destroyed (Destroy url # tr) = url # destroyed tr"
| "destroyed (_ # tr) = destroyed tr"

fun is_report :: "action \<Rightarrow> bool" where
  "is_report (ConsoleLog (Downloaded _)) = True"
| "is_report _ = False"

fun hop_action :: "action \<Rightarrow> bool" where
  "hop_action (Request _) = True"
| "hop_action (Destroy _) = True"
| "hop_action (ConsoleLog (RedirectedTo _)) = True"
| "hop_action _ = False"

fun integral :: "jsnum \<Rightarrow> bool" where
  "integral (Fin q) = (of_int \<lfloor>q\<rfloor> = q)"
| "integral _ = True"

fun states_after :: "buffer list \<Rightarrow> state \<Rightarrow> action list \<Rightarrow> state list option" where
  "states_after [] st tr = Some []"
| "states_after (data # ds) st tr =
     (case onData data st tr of
        Some (Inr (st', tr')) \<Rightarrow> map_option ((#) st') (states_after ds st' tr')
      | _ \<Rightarrow> None)"

text \<open>
  \<open>redirects env url us\<close>: requested at \<open>url\<close>, the server answers with a redirect to the
  first of \<open>us\<close>, which parses as a URL, and so on along \<open>us\<close>.
\<close>

fun redirects :: "env \<Rightarrow> string \<Rightarrow> string list \<Rightarrow> bool" where
  "redirects env url [] = True"
| "redirects env url (u # us) =
     (case https_request env url of
        Inr (Responded res) \<Rightarrow>
          redirect_target (location res) = Some u \<and> parseURL env u \<noteq> None \<and> redirects env u us
      | _ \<Rightarrow> False)"

text \<open>
  The running totals of a sequence of chunk sizes, from \<open>d\<close> bytes already received.
\<close>

fun sums_from :: "nat \<Rightarrow> nat list \<Rightarrow> nat list" where
  "sums_from d [] = []"
| "sums_from d (n # ns) = (d + n) # sums_from (d + n) ns"

text \<open>
  No report line is in the trace before the sink's confirmation of its closure was
  delivered. A trace is quiet when nothing of a transfer has happened in it yet.
\<close>

definition no_report_before_close :: "action list \<Rightarrow> bool" where
  "no_report_before_close tr =
     list_all (\<lambda>a. \<not> is_report a) (takeWhile (\<lambda>a. a \<noteq> Delivered OutClose) tr)"

definition quiet :: "action list \<Rightarrow> bool" where
  "quiet tr = list_all hop_action tr"

text \<open>
  Every delivery of the end of the response's stream is followed at once by a close of
  the sink, and the sink is closed nowhere else.
\<close>

fun closes_on_signal :: "action list \<Rightarrow> bool" where
  "closes_on_signal [] = True"
| "closes_on_signal (Delivered ResClose # SinkClose # tr) = closes_on_signal tr"
| "closes_on_signal (Delivered ResClose # tr) = False"
| "closes_on_signal (SinkClose # tr) = False"
| "closes_on_signal (_ # tr) = closes_on_signal tr"

section \<open>What the bar is expected to show\<close>

text \<open>
  The cells of a bar of \<open>n\<close> units, as the numbers of eighths they show: full cells
  first, then the remainder. \<open>glyph k\<close> is the write of the cell that shows \<open>k\<close> eighths.
\<close>

fun cells :: "nat \<Rightarrow> nat list" where
  "cells n = (if n = 0 then [] else if 8 \<le> n then 8 # cells (n - 8) else [n])"

declare cells.simps [simp del]

definition glyph :: "nat \<Rightarrow> jsstring" where
  "glyph k = [Str [theme_chunks ! k]]"

text \<open>
  The value of \<^verbatim>\<open>Math.floor((state.doneSize / state.totalSize) * state.totalDots)\<close> for
  \<open>d\<close> bytes done of a positive total \<open>t\<close> and 100 units: both roundings are kept.
\<close>

definition progress_units :: "nat \<Rightarrow> rat \<Rightarrow> int" where
  "progress_units d t = \<lfloor>round_mag (round_mag (of_nat d / t) * 100)\<rfloor>"

section \<open>Examples\<close>

text \<open>
  A small network, for the concrete instances: \<^verbatim>\<open>a.example\<close> redirects to a file of four
  bytes on \<^verbatim>\<open>b.example\<close> (which also has a file whose transfer is cut after three bytes,
  and a stream sent without \<^verbatim>\<open>content-length\<close>),
  \<^verbatim>\<open>e.example\<close> redirects to the \<^verbatim>\<open>http\<close> address of the same file
  on \<^verbatim>\<open>c.example\<close>, and \<^verbatim>\<open>d.example\<close> answers 404. The URLs are parsed as \<^verbatim>\<open>new URL\<close>
  parses them.
\<close>

definition example_parseURL :: "string \<Rightarrow> url_parts option" where
  "example_parseURL s =
     (if s = ''https://a.example/get'' then Some \<lparr>protocol = ''https:'', hostname = ''a.example''\<rparr>
      else if s = ''https://b.example/file.bin''
        then Some \<lparr>protocol = ''https:'', hostname = ''b.example''\<rparr>
      else if s = ''https://b.example/cut.bin''
        then Some \<lparr>protocol = ''https:'', hostname = ''b.example''\<rparr>
      else if s = ''https://d.example/missing''
        then Some \<lparr>protocol = ''https:'', hostname = ''d.example''\<rparr>
      else if s = ''https://e.example/get'' then Some \<lparr>protocol = ''https:'', hostname = ''e.example''\<rparr>
      else if s = ''http://c.example/file.bin''
        then Some \<lparr>protocol = ''http:'', hostname = ''c.example''\<rparr>
      else if s = ''https://b.example/stream''
        then Some \<lparr>protocol = ''https:'', hostname = ''b.example''\<rparr>
      else None)"

definition example_file :: response where
  "example_file =
     \<lparr>location = None, content_length = Some ''4'', statusCode = 200,
      events = [Data [1, 2], Data [3, 4], ResClose, OutClose]\<rparr>"

definition example_redirect :: response where
  "example_redirect =
     \<lparr>location = Some ''https://b.example/file.bin'', content_length = Some ''2'',
      statusCode = 302, events = [Data [9, 9], ResClose]\<rparr>"

definition example_http_redirect :: response where
  "example_http_redirect =
     \<lparr>location = Some ''http://c.example/file.bin'', content_length = None, statusCode = 302,
      events = [ResClose]\<rparr>"

definition example_missing :: response where
  "example_missing =
     \<lparr>location = None, content_length = Some ''2'', statusCode = 404,
      events = [Data [110, 111], ResClose]\<rparr>"

definition example_cut :: response where
  "example_cut =
     \<lparr>location = None, content_length = Some ''4'', statusCode = 200,
      events = [Data [1, 2], Data [3], Aborted]\<rparr>"

definition example_stream :: response where
  "example_stream =
     \<lparr>location = None, content_length = None, statusCode = 200,
      events = [Data [80, 75], ResClose, OutClose]\<rparr>"

definition example_empty :: response where
  "example_empty =
     \<lparr>location = None, content_length = Some ''0'', statusCode = 200,
      events = [ResClose, OutClose]\<rparr>"

definition example_server :: "string \<Rightarrow> reply" where
  "example_server s =
     (if s = ''https://a.example/get'' then Responded example_redirect
      else if s = ''https://b.example/file.bin'' then Responded example_file
      else if s = ''https://b.example/cut.bin'' then Responded example_cut
      else if s = ''https://d.example/missing'' then Responded example_missing
      else if s = ''https://e.example/get'' then Responded example_http_redirect
      else if s = ''http://c.example/file.bin'' then Responded example_file
      else if s = ''https://b.example/stream'' then Responded example_stream
      else Failed ''ENOTFOUND'')"

definition example_env :: env where
  "example_env = \<lparr>verbose = True, parseURL = example_parseURL, server = example_server\<rparr>"

section \<open>Properties of the arithmetic\<close>


lemma rne_of_int: "rne (of_int n) = n"
  by (simp add: rne_def)

lemma rne_mono: assumes "x \<le> y" shows "rne x \<le> rne y"
proof -
  have fl: "\<lfloor>x\<rfloor> \<le> \<lfloor>y\<rfloor>" using assms by (rule floor_mono)
  have bx: "rne x \<le> \<lfloor>x\<rfloor> + 1" and by': "\<lfloor>y\<rfloor> \<le> rne y"
    by (simp_all add: rne_def Let_def)
  show ?thesis
  proof (cases "\<lfloor>x\<rfloor> = \<lfloor>y\<rfloor>")
    case True
    then have "x - of_int \<lfloor>x\<rfloor> \<le> y - of_int \<lfloor>y\<rfloor>" using assms by simp
    then show ?thesis using True by (auto simp: rne_def Let_def)
  next
    case False
    then have "\<lfloor>x\<rfloor> + 1 \<le> \<lfloor>y\<rfloor>" using fl by simp
    then show ?thesis using bx by' by linarith
  qed
qed

lemma binade_bounds:
  assumes "0 < q"
  shows "2 powi binade q \<le> q" and "q < 2 powi (binade q + 1)"
proof -
  obtain a b where ab: "quotient_of q = (a, b)" by (cases "quotient_of q")
  then have b: "0 < b" and q: "q = of_int a / of_int b"
    by (auto simp: quotient_of_denom_pos quotient_of_div)
  with assms have a: "0 < a" by (simp add: zero_less_divide_iff)
  define la lb where "la = bitlen a" and "lb = bitlen b"
  have la: "1 \<le> la" and lb: "1 \<le> lb"
    using a b by (auto simp: la_def lb_def bitlen_alt_def)
  have "2 ^ nat (la - 1) \<le> a" "a < 2 ^ nat la" "2 ^ nat (lb - 1) \<le> b" "b < 2 ^ nat lb"
    using bitlen_bounds[OF a] bitlen_bounds[OF b] by (simp_all add: la_def lb_def)
  then have "(of_int (2 ^ nat (la - 1)) :: rat) \<le> of_int a" "(of_int a :: rat) < of_int (2 ^ nat la)"
    "(of_int (2 ^ nat (lb - 1)) :: rat) \<le> of_int b" "(of_int b :: rat) < of_int (2 ^ nat lb)"
    by (simp_all only: of_int_le_iff of_int_less_iff)
  then have A: "(2::rat) powi (la - 1) \<le> of_int a" "(of_int a :: rat) < 2 powi la"
    and B: "(2::rat) powi (lb - 1) \<le> of_int b" "(of_int b :: rat) < 2 powi lb"
    using la lb by (simp_all add: power_int_nonneg_exp)
  have bpos: "(0::rat) < of_int b" using b by simp
  have up: "q < 2 powi (la - lb + 1)"
  proof -
    have "of_int a < (2::rat) powi (la - lb + 1) * 2 powi (lb - 1)"
      using A(2) by (simp add: power_int_add[symmetric])
    also have "\<dots> \<le> 2 powi (la - lb + 1) * of_int b"
      using B(1) by (simp add: mult_left_mono)
    finally show ?thesis using bpos by (simp add: q pos_divide_less_eq)
  qed
  have lo: "2 powi (la - lb - 1) \<le> q"
  proof -
    have "(2::rat) powi (la - lb - 1) * of_int b \<le> 2 powi (la - lb - 1) * 2 powi lb"
      using B(2) by (simp add: mult_left_mono)
    also have "\<dots> = 2 powi (la - 1)" by (simp add: power_int_add[symmetric])
    also have "\<dots> \<le> of_int a" by (rule A(1))
    finally show ?thesis using bpos by (simp add: q pos_le_divide_eq)
  qed
  have bin: "binade q = (if 2 powi (la - lb) \<le> q then la - lb else la - lb - 1)"
    by (simp add: binade_def ab la_def lb_def Let_def)
  show "2 powi binade q \<le> q" using lo by (simp add: bin)
  show "q < 2 powi (binade q + 1)" using up by (auto simp: bin not_le)
qed

lemma powi2_less_iff: "(2::rat) powi m < 2 powi n \<longleftrightarrow> m < n"
  using power_int_strict_increasing[of m n "2::rat"] power_int_increasing[of n m "2::rat"]
  by (auto simp: not_less[symmetric])

lemma powi2_le_iff: "(2::rat) powi m \<le> 2 powi n \<longleftrightarrow> m \<le> n"
  using power_int_strict_increasing[of n m "2::rat"] power_int_increasing[of m n "2::rat"]
  by (auto simp: not_le[symmetric])

lemma binade_unique:
  assumes "0 < q" "2 powi e \<le> q" "q < 2 powi (e + 1)"
  shows "binade q = e"
proof -
  have "(2::rat) powi e < 2 powi (binade q + 1)"
    using assms(2) binade_bounds(2)[OF assms(1)] by simp
  then have 1: "e < binade q + 1" by (simp only: powi2_less_iff)
  have "(2::rat) powi binade q < 2 powi (e + 1)"
    using assms(3) binade_bounds(1)[OF assms(1)] by simp
  then have "binade q < e + 1" by (simp only: powi2_less_iff)
  with 1 show ?thesis by simp
qed


lemma binade_mono: assumes "0 < x" "x \<le> y" shows "binade x \<le> binade y"
proof -
  have "0 < y" using assms by simp
  have "(2::rat) powi binade x \<le> x" using assms(1) by (rule binade_bounds)
  also have "x \<le> y" by fact
  also have "y < 2 powi (binade y + 1)" using \<open>0 < y\<close> by (rule binade_bounds)
  finally have "binade x < binade y + 1" by (simp only: powi2_less_iff)
  then show ?thesis by simp
qed

lemma quantum_pos: "0 < quantum q"
  by (simp add: quantum_def)

lemma quantum_mult: "2 powi k * quantum q = 2 powi (k + max (binade q) (- 1022) - 52)"
  by (simp add: quantum_def power_int_add[symmetric] algebra_simps)

lemma quantum_53: "of_int (2 ^ 53) * quantum q = 2 powi (max (binade q) (- 1022) + 1)"
proof -
  have e: "(of_int (2 ^ 53) :: rat) = 2 powi 53" by simp
  have "2 powi 53 * quantum q = 2 powi (max (binade q) (- 1022) + 1)"
    unfolding quantum_mult by (rule arg_cong[where f = "\<lambda>k. 2 powi k"]) simp
  then show ?thesis unfolding e .
qed

lemma quantum_52: "of_int (2 ^ 52) * quantum q = 2 powi max (binade q) (- 1022)"
proof -
  have e: "(of_int (2 ^ 52) :: rat) = 2 powi 52" by simp
  have "2 powi 52 * quantum q = 2 powi max (binade q) (- 1022)"
    unfolding quantum_mult by (rule arg_cong[where f = "\<lambda>k. 2 powi k"]) simp
  then show ?thesis unfolding e .
qed

lemma round_mag_fixed:
  assumes "q / quantum q = of_int n" shows "round_mag q = q"
proof -
  have "round_mag q = of_int n * quantum q"
    by (simp add: round_mag_def assms rne_of_int)
  also have "\<dots> = q" using assms quantum_pos[of q] by (simp add: field_simps)
  finally show ?thesis .
qed

lemma round_mag_upper:
  assumes "0 < x" shows "round_mag x \<le> 2 powi (max (binade x) (- 1022) + 1)"
proof -
  let ?E = "max (binade x) (- 1022)"
  have "x < 2 powi (binade x + 1)" using assms by (rule binade_bounds)
  also have "\<dots> \<le> 2 powi (?E + 1)" by (simp add: powi2_le_iff)
  also have "\<dots> = of_int (2 ^ 53) * quantum x" by (simp only: quantum_53)
  finally have "x / quantum x \<le> of_int (2 ^ 53)"
    using quantum_pos[of x] by (simp only: pos_divide_le_eq)
  then have "rne (x / quantum x) \<le> rne (of_int (2 ^ 53))" by (rule rne_mono)
  then have "rne (x / quantum x) \<le> 2 ^ 53" by (simp only: rne_of_int)
  then have "(of_int (rne (x / quantum x)) :: rat) \<le> of_int (2 ^ 53)"
    by (simp only: of_int_le_iff)
  then have "round_mag x \<le> of_int (2 ^ 53) * quantum x"
    unfolding round_mag_def using quantum_pos[of x] by (simp only: mult_le_cancel_right_pos)
  also have "\<dots> = 2 powi (?E + 1)" by (rule quantum_53)
  finally show ?thesis .
qed

lemma round_mag_lower:
  assumes "0 < y" "- 1022 \<le> binade y" shows "2 powi binade y \<le> round_mag y"
proof -
  have E: "max (binade y) (- 1022) = binade y" using assms(2) by simp
  have q52: "of_int (2 ^ 52) * quantum y = 2 powi binade y" by (simp only: quantum_52 E)
  moreover have "2 powi binade y \<le> y" using assms(1) by (rule binade_bounds)
  ultimately have "of_int (2 ^ 52) \<le> y / quantum y"
    using quantum_pos[of y] by (simp only: pos_le_divide_eq)
  then have "rne (of_int (2 ^ 52)) \<le> rne (y / quantum y)" by (rule rne_mono)
  then have "2 ^ 52 \<le> rne (y / quantum y)" by (simp only: rne_of_int)
  then have "(of_int (2 ^ 52) :: rat) \<le> of_int (rne (y / quantum y))"
    by (simp only: of_int_le_iff)
  then have "of_int (2 ^ 52) * quantum y \<le> round_mag y"
    unfolding round_mag_def using quantum_pos[of y] by (simp only: mult_le_cancel_right_pos)
  then show ?thesis by (simp only: q52)
qed

lemma round_mag_mono:
  assumes "0 < x" "x \<le> y" shows "round_mag x \<le> round_mag y"
proof -
  have y: "0 < y" using assms by simp
  let ?Ex = "max (binade x) (- 1022)" and ?Ey = "max (binade y) (- 1022)"
  have b: "binade x \<le> binade y" using assms by (rule binade_mono)
  show ?thesis
  proof (cases "?Ex = ?Ey")
    case True
    then have q: "quantum x = quantum y" by (simp add: quantum_def)
    have "x / quantum y \<le> y / quantum y"
      using assms(2) quantum_pos[of y] by (simp add: divide_right_mono)
    then have "rne (x / quantum y) \<le> rne (y / quantum y)" by (rule rne_mono)
    then have "(of_int (rne (x / quantum y)) :: rat) \<le> of_int (rne (y / quantum y))"
      by (simp only: of_int_le_iff)
    then show ?thesis
      unfolding round_mag_def q using quantum_pos[of y] by (simp only: mult_le_cancel_right_pos)
  next
    case False
    with b have lt: "?Ex + 1 \<le> binade y" and n: "- 1022 \<le> binade y" by auto
    have "round_mag x \<le> 2 powi (?Ex + 1)" using assms(1) by (rule round_mag_upper)
    also have "\<dots> \<le> 2 powi binade y" using lt by (simp only: powi2_le_iff)
    also have "\<dots> \<le> round_mag y" using y n by (rule round_mag_lower)
    finally show ?thesis .
  qed
qed

lemma round_mag_nonneg: "0 \<le> x \<Longrightarrow> 0 \<le> round_mag x"
proof -
  assume "0 \<le> x"
  then have "0 \<le> x / quantum x" using quantum_pos[of x] by simp
  then have "rne 0 \<le> rne (x / quantum x)" by (rule rne_mono)
  then have "0 \<le> rne (x / quantum x)" by (simp add: rne_def)
  then show ?thesis using quantum_pos[of x] by (simp add: round_mag_def)
qed

lemma representable_fixed:
  assumes m: "0 < m" "m < 2 ^ 53" and j: "- 1074 \<le> j"
  shows "round_mag (of_int m * 2 powi j) = of_int m * 2 powi j"
proof -
  let ?q = "of_int m * 2 powi j :: rat"
  have mq: "(0::rat) < of_int m" using m by simp
  have q: "0 < ?q" using mq by simp
  have bm_lo: "(2::rat) powi binade (of_int m) \<le> of_int m"
    and bm_hi: "(of_int m :: rat) < 2 powi (binade (of_int m) + 1)"
    using binade_bounds[OF mq] by simp_all
  have "(of_int m :: rat) < of_int (2 ^ 53)" using m(2) by (simp only: of_int_less_iff)
  then have "(2::rat) powi binade (of_int m) < 2 powi 53" using bm_lo by simp
  then have bm: "binade (of_int m) < 53" by (simp only: powi2_less_iff)
  have bq: "binade ?q = binade (of_int m) + j"
  proof (rule binade_unique[OF q])
    show "2 powi (binade (rat_of_int m) + j) \<le> ?q"
      using bm_lo by (simp add: power_int_add mult_right_mono)
    have "?q < 2 powi (binade (of_int m) + 1) * 2 powi j"
      using bm_hi by (simp add: mult_strict_right_mono)
    then show "?q < 2 powi (binade (rat_of_int m) + j + 1)"
      by (simp add: power_int_add[symmetric] algebra_simps)
  qed
  define k where "k = j - max (binade ?q) (- 1022) + 52"
  have k: "0 \<le> k" using bm j by (auto simp: k_def bq)
  have "quantum ?q * 2 powi k = 2 powi j"
    by (simp add: quantum_def k_def power_int_add[symmetric])
  then have "?q / quantum ?q = of_int m * 2 powi k"
    using quantum_pos[of ?q] by (simp add: field_simps)
  also have "\<dots> = of_int (m * 2 ^ nat k)" using k by (simp add: power_int_nonneg_exp)
  finally show ?thesis by (rule round_mag_fixed)
qed

lemma round_mag_int:
  assumes "0 < k" "k \<le> 2 ^ 53" shows "round_mag (of_int k) = of_int k"
proof (cases "k = 2 ^ 53")
  case True
  have "round_mag (of_int (2 ^ 52) * 2 powi 1) = of_int (2 ^ 52) * 2 powi 1"
    by (rule representable_fixed) simp_all
  then show ?thesis by (simp add: True)
next
  case False
  with assms have "k < 2 ^ 53" by simp
  with representable_fixed[of k 0] assms(1) show ?thesis by simp
qed

lemma rd_pos:
  assumes "0 < q" "round_mag q < 2 ^ 1024" shows "rd q = Fin (round_mag q)"
  using assms by (simp add: rd_def signed_zero_def Let_def not_le[symmetric])

lemma rd_int:
  assumes "0 < k" "k \<le> 2 ^ 53" shows "rd (of_int k) = Fin (of_int k)"
proof -
  have r: "round_mag (of_int k) = of_int k" using assms by (rule round_mag_int)
  have "(of_int k :: rat) \<le> of_int (2 ^ 53)" using assms(2) by (simp only: of_int_le_iff)
  also have "\<dots> < 2 ^ 1024" by simp
  finally have "round_mag (of_int k) < 2 ^ 1024" by (simp only: r)
  with assms(1) show ?thesis by (simp add: rd_pos r)
qed


lemma rd_of_int:
  assumes "\<bar>k\<bar> \<le> 2 ^ 53" shows "rd (of_int k) = Fin (of_int k)"
proof -
  consider "k = 0" | "0 < k" | "k < 0" by linarith
  then show ?thesis
  proof cases
    case 1
    then show ?thesis by (simp add: rd_def)
  next
    case 2
    with assms show ?thesis by (simp add: rd_int)
  next
    case 3
    then have k: "0 < - k" "- k \<le> 2 ^ 53" using assms by simp_all
    have r: "round_mag (of_int (- k)) = of_int (- k)" using k by (rule round_mag_int)
    have "(of_int (- k) :: rat) \<le> of_int (2 ^ 53)" using k(2) by (simp only: of_int_le_iff)
    also have "\<dots> < 2 ^ 1024" by simp
    finally have lt: "\<not> (2 ^ 1024 \<le> (of_int (- k) :: rat))" by simp
    have a: "\<bar>of_int k :: rat\<bar> = of_int (- k)" using 3 by simp
    show ?thesis using 3 lt by (simp add: rd_def a r del: of_int_minus) 
  qed
qed

lemma js_add_int:
  assumes "\<bar>a + b\<bar> \<le> 2 ^ 53"
  shows "js_add (Fin (of_int a)) (Fin (of_int b)) = Fin (of_int (a + b))"
proof (cases "a + b = 0")
  case True
  have "(of_int a :: rat) + of_int b = of_int (a + b)" by simp
  then have "(of_int a :: rat) + of_int b = 0" by (simp only: True of_int_0)
  then show ?thesis using True by (simp add: js_add_def signed_zero_def)
next
  case False
  then have "(of_int (a + b) :: rat) \<noteq> 0" by (simp only: of_int_eq_0_iff) simp
  then have "(of_int a :: rat) + of_int b \<noteq> 0" by simp
  then show ?thesis using rd_of_int[OF assms] by (simp add: js_add_def)
qed

lemma js_sub_int:
  assumes "\<bar>a - b\<bar> \<le> 2 ^ 53"
  shows "js_sub (Fin (of_int a)) (Fin (of_int b)) = Fin (of_int (a - b))"
proof (cases "b = 0")
  case True
  have "js_add (Fin (of_int a)) NegZero = Fin (of_int a)"
    using rd_of_int[of a] assms True by (simp add: js_add_def signed_zero_def)
  then show ?thesis using True by (simp add: js_sub_def js_neg_def)
next
  case False
  have "js_neg (Fin (of_int b)) = Fin (of_int (- b))" using False by (simp add: js_neg_def)
  then show ?thesis using js_add_int[of a "- b"] assms by (simp add: js_sub_def)
qed


lemma chunks_at_nat: "k \<le> 8 \<Longrightarrow> chunks_at (Fin (of_nat k)) = Some (theme_chunks ! k)"
  by (simp add: chunks_at_def)

lemma draw_units_nat:
  assumes "n \<le> 2 ^ 53" "\<bar>r\<bar> + int n \<le> 2 ^ 53"
  shows "draw_units (Fin (of_nat n)) (Fin (of_int r)) ws =
           Some (Inr (Fin (of_int (r - int (length (cells n)))), ws @ map glyph (cells n)))"
  using assms
proof (induction n arbitrary: r ws rule: less_induct)
  case (less n)
  consider "n = 0" | "0 < n" "n < 8" | "8 \<le> n" by linarith
  then show ?case
  proof cases
    case 1
    then show ?thesis by (simp add: draw_units.simps[of "Fin 0"] js_gt_def cells.simps[of 0])
  next
    case 2
    have gt: "js_gt (Fin (of_nat n)) (Fin 0)" using 2 by (simp add: js_gt_def)
    have ge: "\<not> js_ge (Fin (of_nat n)) (Fin 8)" using 2 by (simp add: js_ge_def)
    have "\<lfloor>(of_nat n :: rat) / 8\<rfloor> = 0" using 2 by (simp add: floor_eq_iff)
    then have md: "js_mod (Fin (of_nat n)) (Fin 8) = Fin (of_nat n)"
      using 2 by (simp add: js_mod_def Let_def)
    have sub: "js_sub (Fin (of_nat n)) (Fin (of_nat n)) = Fin 0"
      using js_sub_int[of "int n" "int n"] by simp
    have sub1: "js_sub (Fin (of_int r)) (Fin 1) = Fin (of_int (r - 1))"
      using js_sub_int[of r 1] less.prems 2 by simp
    have c: "cells n = [n]" using 2 by (simp add: cells.simps[of n])
    have z: "draw_units (Fin 0) (Fin (of_int (r - 1))) (ws @ [glyph n]) =
               Some (Inr (Fin (of_int (r - 1)), ws @ [glyph n]))"
      by (simp add: draw_units.simps[of "Fin 0"] js_gt_def)
    show ?thesis
      using 2 gt ge md sub sub1 z chunks_at_nat[of n]
      by (simp add: draw_units.simps[of "Fin (of_nat n)"] c glyph_def)
  next
    case 3
    have gt: "js_gt (Fin (of_nat n)) (Fin 0)" using 3 by (simp add: js_gt_def)
    have ge: "js_ge (Fin (of_nat n)) (Fin 8)" using 3 by (simp add: js_ge_def)
    have "js_sub (Fin (of_int (int n))) (Fin (of_int 8)) = Fin (of_int (int n - 8))"
      using less.prems by (intro js_sub_int) simp
    then have sub: "js_sub (Fin (of_nat n)) (Fin 8) = Fin (of_nat (n - 8))"
      using 3 by (simp add: of_nat_diff)
    have sub1: "js_sub (Fin (of_int r)) (Fin 1) = Fin (of_int (r - 1))"
      using js_sub_int[of r 1] less.prems 3 by simp
    have c: "cells n = 8 # cells (n - 8)" using 3 by (simp add: cells.simps[of n])
    have IH: "draw_units (Fin (of_nat (n - 8))) (Fin (of_int (r - 1))) (ws @ [glyph 8]) =
           Some (Inr (Fin (of_int (r - 1 - int (length (cells (n - 8))))),
                 (ws @ [glyph 8]) @ map glyph (cells (n - 8))))"
      using 3 less.prems by (intro less.IH) auto
    show ?thesis
      using gt ge sub sub1 IH chunks_at_nat[of 8]
      by (simp add: draw_units.simps[of "Fin (of_nat n)"] c glyph_def)
  qed
qed

lemma draw_filler_int:
  assumes "\<bar>r\<bar> \<le> 2 ^ 53"
  shows "draw_filler (Fin (of_int r)) ws = Some (ws @ replicate (nat r) [Str [theme_filler]])"
  using assms
proof (induction "nat r" arbitrary: r ws)
  case 0
  then show ?case by (simp add: draw_filler.simps[of "Fin (of_int r)"] js_gt_def)
next
  case (Suc k)
  then have r: "0 < r" and k: "k = nat (r - 1)" by auto
  have sub1: "js_sub (Fin (of_int r)) (Fin 1) = Fin (of_int (r - 1))"
    using js_sub_int[of r 1] Suc.prems r by simp
  have "draw_filler (Fin (of_int (r - 1))) (ws @ [[Str [theme_filler]]]) =
          Some ((ws @ [[Str [theme_filler]]]) @ replicate (nat (r - 1)) [Str [theme_filler]])"
    using Suc.prems r by (intro Suc.hyps(1) k) auto
  moreover have "nat r = Suc (nat (r - 1))" using r by simp
  ultimately show ?case
    using r sub1 by (simp add: draw_filler.simps[of "Fin (of_int r)"] js_gt_def replicate_app_Cons_same)
qed

subsection \<open>The rendering loop on NaN\<close>

lemma showProgress_NaN: "currentDots st = NaN \<Longrightarrow> showProgress st \<noteq> Some (Inl e)"
  by (auto simp: showProgress_def draw_units.simps[of NaN] js_gt_def Option.bind_eq_Some_conv
           split: sum.splits)

lemma render_loop_NaN_aux:
  assumes "render_loop cd st tr = Some y" shows "cd \<noteq> NaN"
proof (rule render_loop.raw_induct[where P = "\<lambda>cd st tr y. cd \<noteq> NaN", OF _ assms])
  fix f cd st tr y
  assume IH: "\<And>cd st tr y. f cd st tr = Some y \<Longrightarrow> cd \<noteq> NaN"
    and eq: "(if js_neq (currentDots st) cd
      then Option.bind (showProgress (st\<lparr>currentDots := cd\<rparr>))
            (\<lambda>r. case r of Inl e \<Rightarrow> Some (Inl e)
                 | Inr ws \<Rightarrow> f cd (st\<lparr>currentDots := cd\<rparr>) (tr @ map Stdout ws))
      else Some (Inr (st, tr))) = Some y"
  show "cd \<noteq> NaN"
  proof
    assume nan: "cd = NaN"
    then have "js_neq (currentDots st) cd" by (simp add: js_neq_def)
    with eq obtain r where r: "showProgress (st\<lparr>currentDots := cd\<rparr>) = Some r"
      and c: "(case r of Inl e \<Rightarrow> Some (Inl e)
                 | Inr ws \<Rightarrow> f cd (st\<lparr>currentDots := cd\<rparr>) (tr @ map Stdout ws)) = Some y"
      by (auto simp: Option.bind_eq_Some_conv)
    show False
    proof (cases r)
      case (Inl e)
      with r nan showProgress_NaN[of "st\<lparr>currentDots := cd\<rparr>" e] show False by simp
    next
      case (Inr ws)
      with c IH nan show False by auto
    qed
  qed
qed

lemma render_loop_NaN: "render_loop NaN st tr = None"
  using render_loop_NaN_aux[of NaN st tr] by (cases "render_loop NaN st tr") auto

lemma parseInt_empty: "parseInt [] = NaN"
  by (simp add: parseInt_def)

lemma onData_NaN: "totalSize st = NaN \<Longrightarrow> onData data st tr = None"
  by (simp add: onData_def js_div_def js_mul_def js_floor_def render_loop_NaN)

subsection \<open>The bar and the unit count\<close>

lemma cells_length: "length (cells n) = (n + 7) div 8"
proof (induction n rule: less_induct)
  case (less n)
  consider "n = 0" | "0 < n" "n < 8" | "8 \<le> n" by linarith
  then show ?case
  proof cases
    case 1
    then show ?thesis by (simp add: cells.simps[of 0])
  next
    case 2
    then show ?thesis by (simp add: cells.simps[of n])
  next
    case 3
    then have IH: "length (cells (n - 8)) = (n - 8 + 7) div 8" by (intro less.IH) simp
    obtain m where m: "n = m + 8" using 3 by (metis le_add_diff_inverse2)
    have "(m + 7 + 8) div 8 = Suc ((m + 7) div 8)" by simp
    then have "Suc ((n - 8 + 7) div 8) = (n + 7) div 8" by (simp add: m)
    then show ?thesis using 3 IH by (simp add: cells.simps[of n])
  qed
qed

lemma cells_sum: "sum_list (cells n) = n"
proof (induction n rule: less_induct)
  case (less n)
  consider "n = 0" | "0 < n" "n < 8" | "8 \<le> n" by linarith
  then show ?case
  proof cases
    case 1
    then show ?thesis by (simp add: cells.simps[of 0])
  next
    case 2
    then show ?thesis by (simp add: cells.simps[of n])
  next
    case 3
    then have "sum_list (cells (n - 8)) = n - 8" by (intro less.IH) simp
    then show ?thesis using 3 by (simp add: cells.simps[of n])
  qed
qed

lemma cells_range: "k \<in> set (cells n) \<Longrightarrow> 1 \<le> k \<and> k \<le> 8"
proof (induction n rule: less_induct)
  case (less n)
  consider "n = 0" | "0 < n" "n < 8" | "8 \<le> n" by linarith
  then show ?case
  proof cases
    case 1
    then show ?thesis using less.prems by (simp add: cells.simps[of 0])
  next
    case 2
    then show ?thesis using less.prems by (simp add: cells.simps[of n])
  next
    case 3
    then have "n - 8 < n" by simp
    from less.IH[OF this] less.prems 3 show ?thesis by (auto simp: cells.simps[of n])
  qed
qed

lemma cells_length_le: "length (cells n) \<le> n"
  by (simp add: cells_length)

lemma js_ceil_width: "js_ceil (js_div (Fin 100) (Fin 8)) = Fin 13"
proof -
  have "round_mag (of_int 25 * 2 powi (- 1)) = of_int 25 * 2 powi (- 1)"
    by (rule representable_fixed) simp_all
  then have r: "round_mag (25 / 2) = 25 / 2" by (simp add: power_int_minus)
  have "rd (25 / 2) = Fin (25 / 2)" using rd_pos[of "25 / 2"] r by simp
  then have "js_div (Fin 100) (Fin 8) = Fin (25 / 2)" by (simp add: js_div_def)
  moreover have "\<lceil>25 / 2 :: rat\<rceil> = 13" by (simp add: ceiling_eq_iff)
  ultimately show ?thesis by (simp add: js_ceil_def)
qed

lemma showProgress_nat:
  assumes "currentDots st = Fin (of_nat n)" "totalDots st = Fin 100" "n + 13 \<le> 2 ^ 53"
  shows "showProgress st =
           Some (Inr ([Str [13, theme_start]] # map glyph (cells n)
                      @ replicate (13 - length (cells n)) [Str [theme_filler]]
                      @ [Str [theme_end, 32] # suffix st]))"
proof -
  have len: "length (cells n) \<le> n" by (rule cells_length_le)
  have n: "n \<le> 2 ^ 53" using assms(3) by simp
  have "draw_units (Fin (of_nat n)) (Fin (of_int 13)) [[Str [13, theme_start]]] =
          Some (Inr (Fin (of_int (13 - int (length (cells n)))),
                     [[Str [13, theme_start]]] @ map glyph (cells n)))"
    using assms(3) by (intro draw_units_nat n) simp
  moreover have "draw_filler (Fin (of_int (13 - int (length (cells n)))))
                   ([[Str [13, theme_start]]] @ map glyph (cells n)) =
          Some (([[Str [13, theme_start]]] @ map glyph (cells n))
                @ replicate (nat (13 - int (length (cells n)))) [Str [theme_filler]])"
    using len assms(3) by (intro draw_filler_int) simp
  moreover have "nat (13 - int (length (cells n))) = 13 - length (cells n)" by simp
  ultimately show ?thesis
    by (simp add: showProgress_def assms(1,2) js_ceil_width)
qed

lemma render_loop_once:
  assumes "cd \<noteq> NaN" "showProgress (st\<lparr>currentDots := cd\<rparr>) = Some (Inr ws)"
  shows "render_loop cd st tr =
           Some (Inr (if js_neq (currentDots st) cd
                      then (st\<lparr>currentDots := cd\<rparr>, tr @ map Stdout ws) else (st, tr)))"
proof -
  have "\<not> js_neq cd cd" using assms(1) by (simp add: js_neq_def)
  then have "render_loop cd (st\<lparr>currentDots := cd\<rparr>) (tr @ map Stdout ws) =
          Some (Inr (st\<lparr>currentDots := cd\<rparr>, tr @ map Stdout ws))"
    by (simp add: render_loop.simps[of cd "st\<lparr>currentDots := cd\<rparr>"])
  then show ?thesis using assms(2) by (simp add: render_loop.simps[of cd st])
qed

lemma round_mag_0: "round_mag 0 = 0"
  by (simp add: round_mag_def rne_def)

lemma round_mag_le_int:
  assumes "0 \<le> x" "x \<le> of_int k" "0 < k" "k \<le> 2 ^ 53"
  shows "0 \<le> round_mag x \<and> round_mag x \<le> of_int k"
proof (cases "x = 0")
  case True
  then show ?thesis using assms(3) by (simp add: round_mag_0)
next
  case False
  then have "0 < x" using assms(1) by simp
  then have "round_mag x \<le> round_mag (of_int k)" using assms(2) by (rule round_mag_mono)
  then show ?thesis using round_mag_int[OF assms(3,4)] round_mag_nonneg[OF assms(1)] by simp
qed

lemma rd_nonneg:
  assumes "0 \<le> x" "round_mag x < 2 ^ 1024" shows "rd x = Fin (round_mag x)"
  using assms rd_pos[of x] by (cases "x = 0") (simp_all add: rd_def round_mag_0)

lemma dots_eval:
  assumes t: "0 < t" and d: "of_nat d \<le> 2 ^ 46 * t"
  shows "js_floor (js_mul (js_div (Fin (of_nat d)) (Fin t)) (Fin 100)) =
           Fin (of_int (progress_units d t))"
    and "0 \<le> progress_units d t" and "progress_units d t \<le> 100 * 2 ^ 46"
proof -
  let ?x = "of_nat d / t :: rat"
  let ?m = "round_mag ?x"
  let ?p = "round_mag (?m * 100)"
  have x0: "0 \<le> ?x" using t by simp
  have "?x \<le> 2 ^ 46" using t d by (simp add: pos_divide_le_eq)
  then have x1: "?x \<le> of_int (2 ^ 46)" by simp
  have m: "0 \<le> ?m" "?m \<le> of_int (2 ^ 46)"
    using round_mag_le_int[OF x0 x1] by simp_all
  then have mm: "0 \<le> ?m * 100" "?m * 100 \<le> of_int (100 * 2 ^ 46)" by simp_all
  have p: "0 \<le> ?p" "?p \<le> of_int (100 * 2 ^ 46)"
    using round_mag_le_int[OF mm] by simp_all
  have "?m < 2 ^ 1024" using m(2) by simp
  then have rdx: "rd ?x = Fin ?m" using x0 by (rule rd_nonneg[rotated])
  have "?p < 2 ^ 1024" using p(2) by simp
  then have rdm: "rd (?m * 100) = Fin ?p" using mm(1) by (rule rd_nonneg[rotated])
  have dv: "js_div (Fin (of_nat d)) (Fin t) = Fin ?m"
  proof (cases "d = 0")
    case True
    then show ?thesis using t by (simp add: js_div_def signed_zero_def round_mag_0)
  next
    case False
    then show ?thesis using t rdx by (simp add: js_div_def)
  qed
  have ml: "js_mul (Fin ?m) (Fin 100) = Fin ?p"
  proof (cases "?m = 0")
    case True
    then show ?thesis by (simp add: js_mul_def signed_zero_def round_mag_0)
  next
    case False
    then show ?thesis using rdm by (simp add: js_mul_def)
  qed
  show "js_floor (js_mul (js_div (Fin (of_nat d)) (Fin t)) (Fin 100)) =
           Fin (of_int (progress_units d t))"
    by (simp add: dv ml js_floor_def progress_units_def)
  show "0 \<le> progress_units d t" using p(1) by (simp add: progress_units_def)
  have "\<lfloor>?p\<rfloor> \<le> \<lfloor>of_int (100 * 2 ^ 46) :: rat\<rfloor>" using p(2) by (rule floor_mono)
  then show "progress_units d t \<le> 100 * 2 ^ 46" by (simp add: progress_units_def)
qed

lemma progress_units_mono:
  assumes "0 < t" "d \<le> d'" shows "progress_units d t \<le> progress_units d' t"
proof -
  have le: "(of_nat d :: rat) / t \<le> of_nat d' / t" using assms by (simp add: divide_right_mono)
  have m: "round_mag (of_nat d / t) \<le> round_mag (of_nat d' / t)"
  proof (cases "d = 0")
    case True
    then show ?thesis using assms(1) by (simp add: round_mag_0 round_mag_nonneg)
  next
    case False
    then have "0 < (of_nat d :: rat) / t" using assms(1) by simp
    then show ?thesis using le by (rule round_mag_mono)
  qed
  have "round_mag (round_mag (of_nat d / t) * 100) \<le> round_mag (round_mag (of_nat d' / t) * 100)"
  proof (cases "round_mag (of_nat d / t) = 0")
    case True
    have "0 \<le> round_mag (of_nat d' / t) * 100" using assms(1) by (simp add: round_mag_nonneg)
    then show ?thesis using True by (simp add: round_mag_0 round_mag_nonneg)
  next
    case False
    have "0 \<le> round_mag (of_nat d / t)" using assms(1) by (simp add: round_mag_nonneg)
    with False have "0 < round_mag (of_nat d / t) * 100" by simp
    then show ?thesis using m by (intro round_mag_mono) simp_all
  qed
  then show ?thesis unfolding progress_units_def by (rule floor_mono)
qed

lemma progress_units_full:
  assumes "0 < T" shows "progress_units T (of_nat T) = 100"
proof -
  have "(of_nat T :: rat) / of_nat T = of_int 1" using assms by simp
  then have "round_mag (of_nat T / of_nat T) = 1" using round_mag_int[of 1] by simp
  moreover have "round_mag (of_int 100) = of_int 100" by (rule round_mag_int) simp_all
  ultimately show ?thesis by (simp add: progress_units_def)
qed

lemma showProgress_initial:
  "showProgress (initial_state res) =
     Some (Inr ([Str [13, theme_start]] # replicate 13 [Str [theme_filler]]
                @ [Str [theme_end, 32] # suffix (initial_state res)]))"
  using showProgress_nat[of "initial_state res" 0]
  by (simp add: initial_state_def Let_def cells.simps[of 0])

subsection \<open>No handler throws\<close>

lemma binade_pow2: "binade (2 powi k) = k"
  by (rule binade_unique) (simp_all add: powi2_less_iff)

lemma rd_integral:
  assumes "0 < k" shows "integral (rd (of_int k))"
proof (cases "k \<le> 2 ^ 53")
  case True
  with assms show ?thesis by (simp add: rd_int)
next
  case False
  then have "(2::rat) powi 53 \<le> of_int k"
  proof -
    from False have "(2::int) ^ 53 \<le> k" by simp
    then have "(of_int (2 ^ 53) :: rat) \<le> of_int k" by (simp only: of_int_le_iff)
    then show ?thesis by simp
  qed
  then have "binade (2 powi 53) \<le> binade (of_int k)" by (intro binade_mono) simp_all
  then have b: "53 \<le> binade (of_int k)" by (simp only: binade_pow2)
  define j where "j = nat (binade (of_int k) - 52)"
  have "quantum (of_int k) = 2 powi (int j)" using b by (simp add: quantum_def j_def)
  then have q: "quantum (of_int k) = of_int (2 ^ j)" by simp
  have "round_mag (of_int k) = of_int (rne (of_int k / quantum (of_int k)) * 2 ^ j)"
    by (simp add: round_mag_def q)
  then obtain i :: int where i: "round_mag (of_int k) = of_int i" by blast
  have "0 < (of_int k :: rat)" using assms by simp
  then show ?thesis
    by (simp add: rd_def Let_def signed_inf_def signed_zero_def i del: of_int_less_iff)
qed

lemma js_sub_8_integral:
  assumes "integral u" "js_ge u (Fin 8)" shows "integral (js_sub u (Fin 8))"
proof (cases u)
  case (Fin q)
  with assms obtain n where n: "q = of_int n" and q8: "8 \<le> q"
    by (auto simp: js_ge_def)
  define k where "k = n - 8"
  have qk: "q - 8 = of_int k" by (simp add: k_def n)
  have k0: "0 \<le> k" using q8 by (simp add: k_def n)
  have "js_sub u (Fin 8) = (if q - 8 = 0 then Fin 0 else rd (q - 8))"
    by (simp add: Fin js_sub_def js_neg_def js_add_def signed_zero_def)
  then show ?thesis using rd_integral[of k] k0 by (cases "k = 0") (simp_all only: qk, simp_all)
qed (use assms in \<open>simp_all add: js_sub_def js_neg_def js_add_def js_ge_def\<close>)

lemma chunk_small:
  assumes "integral u" "js_gt u (Fin 0)" "\<not> js_ge u (Fin 8)"
  shows "\<exists>n. 0 < n \<and> n < 8 \<and> u = Fin (of_nat n)"
proof (cases u)
  case (Fin q)
  with assms obtain i where i: "q = of_int i" and q: "0 < q" "q < 8"
    by (auto simp: js_gt_def js_ge_def)
  then have "0 < i" "i < 8" by simp_all
  then have "0 < nat i \<and> nat i < 8 \<and> q = of_nat (nat i)"
    by (simp add: i)
  then show ?thesis using Fin by blast
qed (use assms in \<open>simp_all add: js_gt_def js_ge_def\<close>)

lemma draw_units_no_throw:
  assumes "draw_units units rw ws = Some y" "integral units" shows "\<exists>r. y = Inr r"
proof -
  have "integral units \<longrightarrow> (\<exists>r. y = Inr r)"
  proof (rule draw_units.raw_induct[where P = "\<lambda>units rw ws y. integral units \<longrightarrow> (\<exists>r. y = Inr r)",
        OF _ assms(1)])
    fix f units rw ws y
    assume IH: "\<And>units rw ws y. f units rw ws = Some y \<Longrightarrow> integral units \<longrightarrow> (\<exists>r. y = Inr r)"
      and eq: "(if js_gt units (Fin 0)
        then let chunk = if js_ge units (Fin 8) then Fin 8 else js_mod units (Fin 8)
             in case chunks_at chunk of None \<Rightarrow> Some (Inl WriteTypeError)
                | Some char \<Rightarrow> f (js_sub units chunk) (js_sub rw (Fin 1)) (ws @ [[Str [char]]])
        else Some (Inr (rw, ws))) = Some y"
    show "integral units \<longrightarrow> (\<exists>r. y = Inr r)"
    proof
      assume int: "integral units"
      show "\<exists>r. y = Inr r"
      proof (cases "js_gt units (Fin 0)")
        case False
        with eq show ?thesis by auto
      next
        case gt: True
        show ?thesis
        proof (cases "js_ge units (Fin 8)")
          case True
          have c: "chunks_at (Fin 8) = Some (theme_chunks ! 8)" using chunks_at_nat[of 8] by simp
          from eq gt True c
          have "f (js_sub units (Fin 8)) (js_sub rw (Fin 1)) (ws @ [[Str [theme_chunks ! 8]]]) = Some y"
            by simp
          from IH[OF this] js_sub_8_integral[OF int True] show ?thesis by simp
        next
          case False
          from chunk_small[OF int gt False] obtain n where n: "0 < n" "n < 8" "units = Fin (of_nat n)"
            by blast
          have "\<lfloor>(of_nat n :: rat) / 8\<rfloor> = 0" using n by (simp add: floor_eq_iff)
          then have md: "js_mod units (Fin 8) = Fin (of_nat n)"
            using n by (simp add: js_mod_def Let_def)
          have c: "chunks_at (Fin (of_nat n)) = Some (theme_chunks ! n)"
            using n by (intro chunks_at_nat) simp
          have sub: "js_sub (Fin (of_nat n)) (Fin (of_nat n)) = Fin 0"
            using js_sub_int[of "int n" "int n"] by simp
          from eq gt False md c sub n(3)
          have "f (Fin 0) (js_sub rw (Fin 1)) (ws @ [[Str [theme_chunks ! n]]]) = Some y"
            by simp
          from IH[OF this] show ?thesis by simp
        qed
      qed
    qed
  qed
  with assms(2) show ?thesis by simp
qed

lemma showProgress_no_throw:
  assumes "showProgress st = Some y" "integral (currentDots st)" shows "\<exists>ws. y = Inr ws"
proof -
  from assms(1) obtain r where
    r: "draw_units (currentDots st) (js_ceil (js_div (totalDots st) (Fin 8)))
          [[Str [0x0D, theme_start]]] = Some r"
    and c: "(case r of Inl e \<Rightarrow> Some (Inl e)
        | Inr (remainWidth, ws) \<Rightarrow>
            Option.bind (draw_filler remainWidth ws)
              (\<lambda>ws'. Some (Inr (ws' @ [Str [theme_end, 0x20] # suffix st])))) = Some y"
    by (auto simp: showProgress_def Option.bind_eq_Some_conv)
  from draw_units_no_throw[OF r assms(2)] obtain rw ws where "r = Inr (rw, ws)" by auto
  with c show ?thesis by (auto simp: Option.bind_eq_Some_conv)
qed

subsection \<open>What onData returns\<close>

lemma js_floor_integral: "integral (js_floor a)"
  by (cases a) (simp_all add: js_floor_def)

lemma render_loop_result:
  assumes "render_loop cd st tr = Some y" "integral cd"
  shows "\<exists>st' ws. y = Inr (st', tr @ map Stdout ws) \<and> doneSize st' = doneSize st
            \<and> totalSize st' = totalSize st \<and> totalDots st' = totalDots st"
proof -
  let ?P = "\<lambda>cd st tr y. integral cd \<longrightarrow>
      (\<exists>st' ws. y = Inr (st', tr @ map Stdout ws) \<and> doneSize st' = doneSize st
            \<and> totalSize st' = totalSize st \<and> totalDots st' = totalDots st)"
  have "?P cd st tr y"
  proof (rule render_loop.raw_induct[where P = ?P, OF _ assms(1)])
    fix f cd st tr y
    assume IH: "\<And>cd st tr y. f cd st tr = Some y \<Longrightarrow> ?P cd st tr y"
      and eq: "(if js_neq (currentDots st) cd
        then Option.bind (showProgress (st\<lparr>currentDots := cd\<rparr>))
              (\<lambda>r. case r of Inl e \<Rightarrow> Some (Inl e)
                   | Inr ws \<Rightarrow> f cd (st\<lparr>currentDots := cd\<rparr>) (tr @ map Stdout ws))
        else Some (Inr (st, tr))) = Some y"
    show "?P cd st tr y"
    proof
      assume int: "integral cd"
      show "\<exists>st' ws. y = Inr (st', tr @ map Stdout ws) \<and> doneSize st' = doneSize st
            \<and> totalSize st' = totalSize st \<and> totalDots st' = totalDots st"
      proof (cases "js_neq (currentDots st) cd")
        case False
        with eq have "y = Inr (st, tr @ map Stdout [])" by simp
        then show ?thesis by blast
      next
        case True
        with eq obtain r where r: "showProgress (st\<lparr>currentDots := cd\<rparr>) = Some r"
          and c: "(case r of Inl e \<Rightarrow> Some (Inl e)
                   | Inr ws \<Rightarrow> f cd (st\<lparr>currentDots := cd\<rparr>) (tr @ map Stdout ws)) = Some y"
          by (auto simp: Option.bind_eq_Some_conv)
        from showProgress_no_throw[OF r] int obtain ws where ws: "r = Inr ws" by auto
        with c have "f cd (st\<lparr>currentDots := cd\<rparr>) (tr @ map Stdout ws) = Some y" by simp
        from IH[OF this] int obtain st' ws' where
          "y = Inr (st', (tr @ map Stdout ws) @ map Stdout ws')" "doneSize st' = doneSize st"
          "totalSize st' = totalSize st" "totalDots st' = totalDots st"
          by auto
        then have "y = Inr (st', tr @ map Stdout (ws @ ws')) \<and> doneSize st' = doneSize st
            \<and> totalSize st' = totalSize st \<and> totalDots st' = totalDots st" by simp
        then show ?thesis by blast
      qed
    qed
  qed
  with assms(2) show ?thesis by simp
qed

lemma onData_result:
  assumes "onData data st tr = Some y"
  shows "\<exists>st' ws. y = Inr (st', tr @ map Stdout ws @ [SinkWrite data])
            \<and> doneSize st' = js_add (doneSize st) (byteLength data)
            \<and> totalSize st' = totalSize st \<and> totalDots st' = totalDots st"
proof -
  let ?st1 = "st\<lparr>doneSize := js_add (doneSize st) (byteLength data)\<rparr>"
  let ?cd = "js_floor (js_mul (js_div (doneSize ?st1) (totalSize ?st1)) (totalDots ?st1))"
  from assms obtain r where r: "render_loop ?cd ?st1 tr = Some r"
    and c: "(case r of Inl e \<Rightarrow> Some (Inl e)
            | Inr (st2, tr2) \<Rightarrow> Some (Inr (st2, tr2 @ [SinkWrite data]))) = Some y"
    by (auto simp: onData_def Let_def Option.bind_eq_Some_conv)
  from render_loop_result[OF r js_floor_integral] obtain st' ws where
    "r = Inr (st', tr @ map Stdout ws)" "doneSize st' = doneSize ?st1"
    "totalSize st' = totalSize ?st1" "totalDots st' = totalDots ?st1" by blast
  with c show ?thesis by auto
qed

lemma onData_ok:
  assumes inv: "totalSize st = Fin t" "0 < t" "doneSize st = Fin (of_nat d)"
      "totalDots st = Fin 100"
    and bound: "d + length data \<le> 2 ^ 53" "of_nat (d + length data) \<le> 2 ^ 46 * t"
  shows "\<exists>st' ws. onData data st tr = Some (Inr (st', tr @ map Stdout ws @ [SinkWrite data]))
           \<and> doneSize st' = Fin (of_nat (d + length data))
           \<and> currentDots st' = (if js_neq (currentDots st) (Fin (of_int (progress_units (d + length data) t)))
                then Fin (of_int (progress_units (d + length data) t)) else currentDots st)
           \<and> totalSize st' = Fin t \<and> totalDots st' = Fin 100"
proof -
  let ?d' = "d + length data"
  let ?st1 = "st\<lparr>doneSize := js_add (doneSize st) (byteLength data)\<rparr>"
  let ?cd = "Fin (of_int (progress_units ?d' t)) :: jsnum"
  have "js_add (Fin (of_int (int d))) (Fin (of_int (int (length data)))) =
          Fin (of_int (int d + int (length data)))"
    using bound(1) by (intro js_add_int) simp
  then have add: "js_add (Fin (of_nat d)) (byteLength data) = Fin (of_nat ?d')"
    by (simp add: byteLength_def)
  have ds1: "doneSize ?st1 = Fin (of_nat ?d')" using add by (simp add: inv(3))
  have ts1: "totalSize ?st1 = Fin t" "totalDots ?st1 = Fin 100" by (simp_all add: inv)
  have cd: "js_floor (js_mul (js_div (doneSize ?st1) (totalSize ?st1)) (totalDots ?st1)) = ?cd"
    using dots_eval(1)[OF inv(2) bound(2)] by (simp only: ds1 ts1)
  have p: "0 \<le> progress_units ?d' t" "progress_units ?d' t \<le> 100 * 2 ^ 46"
    using dots_eval(2,3)[OF inv(2) bound(2)] by simp_all
  define n where "n = nat (progress_units ?d' t)"
  have n: "?cd = Fin (of_nat n)" "n + 13 \<le> 2 ^ 53" using p by (simp_all add: n_def)
  have "\<exists>ws. showProgress (?st1\<lparr>currentDots := ?cd\<rparr>) = Some (Inr ws)"
    using showProgress_nat[of "?st1\<lparr>currentDots := ?cd\<rparr>" n] n inv(4) by simp
  then obtain ws where ws: "showProgress (?st1\<lparr>currentDots := ?cd\<rparr>) = Some (Inr ws)" ..
  have rl: "render_loop ?cd ?st1 tr =
           Some (Inr (if js_neq (currentDots ?st1) ?cd
                      then (?st1\<lparr>currentDots := ?cd\<rparr>, tr @ map Stdout ws) else (?st1, tr)))"
    by (rule render_loop_once[OF _ ws]) simp
  show ?thesis
  proof (cases "js_neq (currentDots st) ?cd")
    case True
    then have "onData data st tr =
        Some (Inr (?st1\<lparr>currentDots := ?cd\<rparr>, tr @ map Stdout ws @ [SinkWrite data]))"
      using rl cd by (simp add: onData_def Let_def)
    then show ?thesis using True add inv by (intro exI[of _ "?st1\<lparr>currentDots := ?cd\<rparr>"] exI[of _ ws]) simp
  next
    case False
    then have "onData data st tr = Some (Inr (?st1, tr @ map Stdout [] @ [SinkWrite data]))"
      using rl cd by (simp add: onData_def Let_def)
    then show ?thesis using False add inv by (intro exI[of _ ?st1] exI[of _ "[]"]) simp
  qed
qed

subsection \<open>The states after a sequence of chunks\<close>

lemma js_neq_Fin: "js_neq (Fin a) (Fin b) \<longleftrightarrow> a \<noteq> b"
  by (auto simp: js_neq_def)

lemma onData_ok_dots:
  assumes inv: "totalSize st = Fin t" "0 < t" "doneSize st = Fin (of_nat d)"
      "totalDots st = Fin 100" "currentDots st = Fin c"
    and bound: "d + length data \<le> 2 ^ 53" "of_nat (d + length data) \<le> 2 ^ 46 * t"
  shows "\<exists>st' ws. onData data st tr = Some (Inr (st', tr @ map Stdout ws @ [SinkWrite data]))
           \<and> doneSize st' = Fin (of_nat (d + length data))
           \<and> currentDots st' = Fin (of_int (progress_units (d + length data) t))
           \<and> totalSize st' = Fin t \<and> totalDots st' = Fin 100"
proof -
  from onData_ok[OF inv(1-4) bound, of tr] obtain st' ws where
    r: "onData data st tr = Some (Inr (st', tr @ map Stdout ws @ [SinkWrite data]))"
       "doneSize st' = Fin (of_nat (d + length data))"
       "currentDots st' = (if js_neq (currentDots st) (Fin (of_int (progress_units (d + length data) t)))
                then Fin (of_int (progress_units (d + length data) t)) else currentDots st)"
       "totalSize st' = Fin t" "totalDots st' = Fin 100"
    by blast
  have "currentDots st' = Fin (of_int (progress_units (d + length data) t))"
    using r(3) by (simp add: inv(5) js_neq_Fin split: if_splits)
  with r show ?thesis by blast
qed

lemma sums_from_sorted: "sorted (d # sums_from d ns)"
proof (induction ns arbitrary: d)
  case Nil
  show ?case by simp
next
  case (Cons n ns)
  have "sorted ((d + n) # sums_from (d + n) ns)" by (rule Cons.IH)
  moreover have "\<forall>k\<in>set ((d + n) # sums_from (d + n) ns). d \<le> k" using calculation by auto
  ultimately show ?case by simp
qed

lemma sums_from_last: "last (d # sums_from d ns) = d + sum_list ns"
  by (induction ns arbitrary: d) (simp_all add: add.assoc)

lemma states_after_doneSize:
  assumes "states_after ds st tr = Some sts" "doneSize st = Fin (of_nat d)"
    "d + sum_list (map length ds) \<le> 2 ^ 53"
  shows "map doneSize sts = map (\<lambda>k. Fin (of_nat k)) (sums_from d (map length ds))"
  using assms
proof (induction ds arbitrary: st tr sts d)
  case Nil
  then show ?case by simp
next
  case (Cons data ds)
  from Cons.prems(1) obtain y where y: "onData data st tr = Some y"
    by (cases "onData data st tr") auto
  from onData_result[OF y] obtain st' ws where
    st': "y = Inr (st', tr @ map Stdout ws @ [SinkWrite data])"
      "doneSize st' = js_add (doneSize st) (byteLength data)" by blast
  have "js_add (Fin (of_int (int d))) (Fin (of_int (int (length data)))) =
          Fin (of_int (int d + int (length data)))"
    using Cons.prems(3) by (intro js_add_int) simp
  then have d': "doneSize st' = Fin (of_nat (d + length data))"
    by (simp add: st'(2) Cons.prems(2) byteLength_def)
  from Cons.prems(1) y st'(1) obtain rest where
    rest: "states_after ds st' (tr @ map Stdout ws @ [SinkWrite data]) = Some rest" "sts = st' # rest"
    by auto
  have "map doneSize rest = map (\<lambda>k. Fin (of_nat k)) (sums_from (d + length data) (map length ds))"
    using Cons.prems(3) by (intro Cons.IH[OF rest(1) d']) (simp add: add.assoc)
  then show ?case using d' rest(2) by simp
qed

lemma states_after_ok:
  assumes inv: "totalSize st = Fin t" "0 < t" "doneSize st = Fin (of_nat d)"
      "totalDots st = Fin 100" "currentDots st = Fin c"
    and bound: "d + sum_list (map length ds) \<le> 2 ^ 53"
      "of_nat (d + sum_list (map length ds)) \<le> 2 ^ 46 * t"
  shows "\<exists>sts. states_after ds st tr = Some sts
           \<and> map currentDots sts =
               map (\<lambda>k. Fin (of_int (progress_units k t))) (sums_from d (map length ds))"
  using assms
proof (induction ds arbitrary: st tr d c)
  case Nil
  then show ?case by simp
next
  case (Cons data ds)
  have b1: "d + length data \<le> 2 ^ 53" using Cons.prems(6) by simp
  have "(of_nat (d + length data) :: rat) \<le> of_nat (d + sum_list (map length (data # ds)))"
    by (simp only: of_nat_le_iff) simp
  then have b2: "of_nat (d + length data) \<le> 2 ^ 46 * t" using Cons.prems(7) by simp
  from onData_ok_dots[OF Cons.prems(1-5) b1 b2, of tr] obtain st' ws where
    r: "onData data st tr = Some (Inr (st', tr @ map Stdout ws @ [SinkWrite data]))"
       "doneSize st' = Fin (of_nat (d + length data))"
       "currentDots st' = Fin (of_int (progress_units (d + length data) t))"
       "totalSize st' = Fin t" "totalDots st' = Fin 100"
    by blast
  have "\<exists>sts. states_after ds st' (tr @ map Stdout ws @ [SinkWrite data]) = Some sts
           \<and> map currentDots sts =
               map (\<lambda>k. Fin (of_int (progress_units k t))) (sums_from (d + length data) (map length ds))"
    using Cons.prems(6,7) by (intro Cons.IH[OF r(4) Cons.prems(2) r(2) r(5) r(3)]) (simp_all add: add.assoc)
  then show ?case using r(1,3) by auto
qed

subsection \<open>The initial state\<close>

lemma progress_units_nonneg: "0 < t \<Longrightarrow> 0 \<le> progress_units d t"
  by (simp add: progress_units_def round_mag_nonneg)

lemma progress_units_0: "0 < t \<Longrightarrow> progress_units 0 t = 0"
  by (simp add: progress_units_def round_mag_0)

lemma parseInt_10: "parseInt ''10'' = Fin 10"
proof -
  have "digits_val ''10'' = 10" by (simp add: digits_val_def)
  moreover have "rd (of_int 10) = Fin (of_int 10)" by (rule rd_int) simp_all
  ultimately show ?thesis by (simp add: parseInt_def is_space_def is_digit_def)
qed

lemma initial_state_simps:
  "doneSize (initial_state res) = Fin 0"
  "currentDots (initial_state res) = Fin 0"
  "totalDots (initial_state res) = Fin 100"
  "totalSize (initial_state res) = parseInt (case content_length res of None \<Rightarrow> [] | Some v \<Rightarrow> v)"
  by (simp_all add: initial_state_def Let_def)

subsection \<open>The handlers and the trace\<close>

lemma sink_writes_append: "sink_writes (a @ b) = sink_writes a @ sink_writes b"
  by (induction a rule: sink_writes.induct) simp_all

lemma sink_writes_Stdout: "sink_writes (map Stdout ws) = []"
  by (induction ws) simp_all

lemma requests_append: "requests (a @ b) = requests a @ requests b"
  by (induction a rule: requests.induct) simp_all

lemma requests_Stdout: "requests (map Stdout ws) = []"
  by (induction ws) simp_all

lemma count_Stdout: "count_list (map Stdout ws) SinkClose = 0"
  "count_list (map Stdout ws) (Delivered e) = 0"
  by (induction ws) simp_all

lemma not_report_Stdout: "list_all (\<lambda>a. \<not> is_report a) (map Stdout ws)"
  by (induction ws) simp_all

lemma completion_props:
  "sink_writes (completion env st) = []" "requests (completion env st) = []"
  "count_list (completion env st) SinkClose = 0"
  "count_list (completion env st) (Delivered e) = 0"
  by (simp_all add: completion_def debug_def)

lemma nrbc_append:
  assumes "no_report_before_close tr" "list_all (\<lambda>a. \<not> is_report a) xs"
  shows "no_report_before_close (tr @ xs)"
proof (cases "\<forall>a\<in>set tr. a \<noteq> Delivered OutClose")
  case True
  then have tw: "takeWhile (\<lambda>a. a \<noteq> Delivered OutClose) tr = tr" by simp
  have "list_all (\<lambda>a. \<not> is_report a) (takeWhile (\<lambda>a. a \<noteq> Delivered OutClose) xs)"
    using assms(2) by (induction xs) simp_all
  then show ?thesis using assms(1) True
    by (simp add: no_report_before_close_def takeWhile_append tw)
next
  case False
  then show ?thesis using assms(1)
    by (auto simp: no_report_before_close_def takeWhile_append)
qed

lemma nrbc_append_close:
  assumes "no_report_before_close tr"
  shows "no_report_before_close (tr @ Delivered OutClose # xs)"
proof (cases "\<forall>a\<in>set tr. a \<noteq> Delivered OutClose")
  case True
  then have tw: "takeWhile (\<lambda>a. a \<noteq> Delivered OutClose) tr = tr" by simp
  show ?thesis using assms True
    by (simp add: no_report_before_close_def takeWhile_append tw)
next
  case False
  then show ?thesis using assms
    by (auto simp: no_report_before_close_def takeWhile_append)
qed

lemma delivered_append: "delivered (a @ b) = delivered a @ delivered b"
  by (induction a rule: delivered.induct) simp_all

lemma destroyed_append: "destroyed (a @ b) = destroyed a @ destroyed b"
  by (induction a rule: destroyed.induct) simp_all

lemma delivered_Stdout: "delivered (map Stdout ws) = []" "destroyed (map Stdout ws) = []"
  by (induction ws) simp_all

lemma completion_reads: "delivered (completion env st) = []" "destroyed (completion env st) = []"
  by (simp_all add: completion_def debug_def)

lemma deliver_delivered:
  assumes "deliver env es st p tr = Some (st', p', tr')"
  shows "\<exists>rest. tr' = tr @ rest \<and> delivered rest = es \<and> destroyed rest = []"
  using assms
proof (induction es arbitrary: st p tr)
  case Nil
  then show ?case by simp
next
  case (Cons e es)
  have step: "\<exists>rest. tr' = tr @ rest \<and> delivered rest = e # es \<and> destroyed rest = []"
    if d: "deliver env es st1 p1 (tr @ new) = Some (st', p', tr')"
      and n: "delivered new = [e]" "destroyed new = []" for st1 p1 new
  proof -
    from Cons.IH[OF d] obtain rest where
      "tr' = (tr @ new) @ rest" "delivered rest = es" "destroyed rest = []" by blast
    then show ?thesis using n
      by (intro exI[of _ "new @ rest"]) (simp add: delivered_append destroyed_append)
  qed
  show ?case
  proof (cases e)
    case (Data data)
    from Cons.prems Data obtain y where y: "onData data st (tr @ [Delivered (Data data)]) = Some y"
      by (cases "onData data st (tr @ [Delivered (Data data)])") auto
    from onData_result[OF y] obtain st1 ws where
      st1: "y = Inr (st1, (tr @ [Delivered (Data data)]) @ map Stdout ws @ [SinkWrite data])" by blast
    let ?new = "Delivered (Data data) # map Stdout ws @ [SinkWrite data]"
    have d: "deliver env es st1 p (tr @ ?new) = Some (st', p', tr')"
      using Cons.prems Data y st1 by simp
    show ?thesis
      by (rule step[OF d]) (simp_all add: Data delivered_append destroyed_append delivered_Stdout)
  next
    case ResClose
    have d: "deliver env es st p (tr @ [Delivered ResClose, SinkClose]) = Some (st', p', tr')"
      using Cons.prems ResClose by simp
    show ?thesis by (rule step[OF d]) (simp_all add: ResClose)
  next
    case Aborted
    have d: "deliver env es st (settle p (Rejected RequestAborted))
               (tr @ [Delivered Aborted, ConsoleWarn RequestAbortedWarning]) = Some (st', p', tr')"
      using Cons.prems Aborted by simp
    show ?thesis by (rule step[OF d]) (simp_all add: Aborted)
  next
    case OutClose
    have d: "deliver env es st (settle p Resolved)
               (tr @ Delivered OutClose # (if p = Pending then completion env st else []))
             = Some (st', p', tr')"
      using Cons.prems OutClose by simp
    show ?thesis by (rule step[OF d]) (simp_all add: OutClose completion_reads)
  next
    case (OutError x)
    have d: "deliver env es st (settle p (Rejected (SinkError x)))
               (tr @ [Delivered (OutError x), ConsoleWarn (IOError x)]) = Some (st', p', tr')"
      using Cons.prems OutError by simp
    show ?thesis by (rule step[OF d]) (simp_all add: OutError)
  next
    case (ReqError x)
    have d: "deliver env es st p (tr @ [Delivered (ReqError x), ConsoleLog (GotError x)])
             = Some (st', p', tr')"
      using Cons.prems ReqError by simp
    show ?thesis by (rule step[OF d]) (simp_all add: ReqError)
  qed
qed

lemma closes_on_signal_append:
  "closes_on_signal tr \<Longrightarrow> closes_on_signal new \<Longrightarrow> closes_on_signal (tr @ new)"
  by (induction tr rule: closes_on_signal.induct) simp_all

lemma closes_on_signal_Stdout: "closes_on_signal (map Stdout ws @ tr) = closes_on_signal tr"
  by (induction ws) simp_all

lemma closes_on_signal_completion: "closes_on_signal (completion env st @ tr) = closes_on_signal tr"
  by (simp add: completion_def debug_def)

lemma deliver_inv:
  assumes "deliver env es st p tr = Some (st', p', tr')"
  shows "\<exists>rest. tr' = tr @ rest
           \<and> count_list rest SinkClose = count_list es ResClose
           \<and> count_list rest (Delivered ResClose) = count_list es ResClose
           \<and> requests rest = [] \<and> closes_on_signal rest
           \<and> (no_report_before_close tr \<longrightarrow> no_report_before_close tr')
           \<and> ((p = Resolved \<longrightarrow> Delivered OutClose \<in> set tr) \<longrightarrow>
                (p' = Resolved \<longrightarrow> Delivered OutClose \<in> set tr'))"
  using assms
proof (induction es arbitrary: st p tr)
  case Nil
  then show ?case by simp
next
  case (Cons e es)
  show ?case
  proof (cases e)
    case (Data data)
    from Cons.prems Data obtain y where y: "onData data st (tr @ [Delivered (Data data)]) = Some y"
      by (cases "onData data st (tr @ [Delivered (Data data)])") auto
    from onData_result[OF y] obtain st1 ws where
      st1: "y = Inr (st1, (tr @ [Delivered (Data data)]) @ map Stdout ws @ [SinkWrite data])" by blast
    let ?new = "Delivered (Data data) # map Stdout ws @ [SinkWrite data]"
    have d: "deliver env es st1 p (tr @ ?new) = Some (st', p', tr')"
      using Cons.prems Data y st1 by simp
    from Cons.IH[OF d] obtain rest where rest: "tr' = (tr @ ?new) @ rest"
      "count_list rest SinkClose = count_list es ResClose"
      "count_list rest (Delivered ResClose) = count_list es ResClose"
      "requests rest = []" "closes_on_signal rest"
      "no_report_before_close (tr @ ?new) \<longrightarrow> no_report_before_close tr'"
      "(p = Resolved \<longrightarrow> Delivered OutClose \<in> set (tr @ ?new)) \<longrightarrow>
         (p' = Resolved \<longrightarrow> Delivered OutClose \<in> set tr')" by blast
    have a: "no_report_before_close tr \<longrightarrow> no_report_before_close tr'"
      using rest(6) nrbc_append[of tr ?new] not_report_Stdout[of ws] by simp
    have b: "(p = Resolved \<longrightarrow> Delivered OutClose \<in> set tr) \<longrightarrow>
               (p' = Resolved \<longrightarrow> Delivered OutClose \<in> set tr')"
      using rest(7) by auto
    show ?thesis
      using rest(1-5) a b Data
      by (intro exI[of _ "?new @ rest"])
         (simp add: count_Stdout requests_append requests_Stdout closes_on_signal_Stdout)
  next
    case ResClose
    let ?new = "[Delivered ResClose, SinkClose]"
    have d: "deliver env es st p (tr @ ?new) = Some (st', p', tr')"
      using Cons.prems ResClose by simp
    from Cons.IH[OF d] obtain rest where rest: "tr' = (tr @ ?new) @ rest"
      "count_list rest SinkClose = count_list es ResClose"
      "count_list rest (Delivered ResClose) = count_list es ResClose"
      "requests rest = []" "closes_on_signal rest"
      "no_report_before_close (tr @ ?new) \<longrightarrow> no_report_before_close tr'"
      "(p = Resolved \<longrightarrow> Delivered OutClose \<in> set (tr @ ?new)) \<longrightarrow>
         (p' = Resolved \<longrightarrow> Delivered OutClose \<in> set tr')" by blast
    have a: "no_report_before_close tr \<longrightarrow> no_report_before_close tr'"
      using rest(6) nrbc_append[of tr ?new] by simp
    have b: "(p = Resolved \<longrightarrow> Delivered OutClose \<in> set tr) \<longrightarrow>
               (p' = Resolved \<longrightarrow> Delivered OutClose \<in> set tr')"
      using rest(7) by (auto simp: settle_def)
    show ?thesis
      using rest(1-5) a b ResClose
      by (intro exI[of _ "?new @ rest"]) (simp add: count_Stdout requests_append requests_Stdout completion_props
             closes_on_signal_completion closes_on_signal_Stdout)
  next
    case Aborted
    let ?new = "[Delivered Aborted, ConsoleWarn RequestAbortedWarning]"
    have d: "deliver env es st (settle p (Rejected RequestAborted)) (tr @ ?new) = Some (st', p', tr')"
      using Cons.prems Aborted by simp
    from Cons.IH[OF d] obtain rest where rest: "tr' = (tr @ ?new) @ rest"
      "count_list rest SinkClose = count_list es ResClose"
      "count_list rest (Delivered ResClose) = count_list es ResClose"
      "requests rest = []" "closes_on_signal rest"
      "no_report_before_close (tr @ ?new) \<longrightarrow> no_report_before_close tr'"
      "((settle p (Rejected RequestAborted)) = Resolved \<longrightarrow> Delivered OutClose \<in> set (tr @ ?new)) \<longrightarrow>
         (p' = Resolved \<longrightarrow> Delivered OutClose \<in> set tr')" by blast
    have a: "no_report_before_close tr \<longrightarrow> no_report_before_close tr'"
      using rest(6) nrbc_append[of tr ?new] by simp
    have b: "(p = Resolved \<longrightarrow> Delivered OutClose \<in> set tr) \<longrightarrow>
               (p' = Resolved \<longrightarrow> Delivered OutClose \<in> set tr')"
      using rest(7) by (auto simp: settle_def)
    show ?thesis
      using rest(1-5) a b Aborted
      by (intro exI[of _ "?new @ rest"]) (simp add: count_Stdout requests_append requests_Stdout completion_props
             closes_on_signal_completion closes_on_signal_Stdout)
  next
    case OutClose
    let ?new = "Delivered OutClose # (if p = Pending then completion env st else [])"
    have d: "deliver env es st (settle p Resolved) (tr @ ?new) = Some (st', p', tr')"
      using Cons.prems OutClose by simp
    from Cons.IH[OF d] obtain rest where rest: "tr' = (tr @ ?new) @ rest"
      "count_list rest SinkClose = count_list es ResClose"
      "count_list rest (Delivered ResClose) = count_list es ResClose"
      "requests rest = []" "closes_on_signal rest"
      "no_report_before_close (tr @ ?new) \<longrightarrow> no_report_before_close tr'"
      "((settle p Resolved) = Resolved \<longrightarrow> Delivered OutClose \<in> set (tr @ ?new)) \<longrightarrow>
         (p' = Resolved \<longrightarrow> Delivered OutClose \<in> set tr')" by blast
    have a: "no_report_before_close tr \<longrightarrow> no_report_before_close tr'"
      using rest(6) nrbc_append_close[of tr] by simp
    have b: "(p = Resolved \<longrightarrow> Delivered OutClose \<in> set tr) \<longrightarrow>
               (p' = Resolved \<longrightarrow> Delivered OutClose \<in> set tr')"
      using rest(7) by (auto simp: settle_def)
    show ?thesis
      using rest(1-5) a b OutClose
      by (intro exI[of _ "?new @ rest"]) (simp add: count_Stdout requests_append requests_Stdout completion_props
             closes_on_signal_completion closes_on_signal_Stdout)
  next
    case (OutError x)
    let ?new = "[Delivered (OutError x), ConsoleWarn (IOError x)]"
    have d: "deliver env es st (settle p (Rejected (SinkError x))) (tr @ ?new) = Some (st', p', tr')"
      using Cons.prems OutError by simp
    from Cons.IH[OF d] obtain rest where rest: "tr' = (tr @ ?new) @ rest"
      "count_list rest SinkClose = count_list es ResClose"
      "count_list rest (Delivered ResClose) = count_list es ResClose"
      "requests rest = []" "closes_on_signal rest"
      "no_report_before_close (tr @ ?new) \<longrightarrow> no_report_before_close tr'"
      "((settle p (Rejected (SinkError x))) = Resolved \<longrightarrow> Delivered OutClose \<in> set (tr @ ?new)) \<longrightarrow>
         (p' = Resolved \<longrightarrow> Delivered OutClose \<in> set tr')" by blast
    have a: "no_report_before_close tr \<longrightarrow> no_report_before_close tr'"
      using rest(6) nrbc_append[of tr ?new] by simp
    have b: "(p = Resolved \<longrightarrow> Delivered OutClose \<in> set tr) \<longrightarrow>
               (p' = Resolved \<longrightarrow> Delivered OutClose \<in> set tr')"
      using rest(7) by (auto simp: settle_def)
    show ?thesis
      using rest(1-5) a b OutError
      by (intro exI[of _ "?new @ rest"]) (simp add: count_Stdout requests_append requests_Stdout completion_props
             closes_on_signal_completion closes_on_signal_Stdout)
  next
    case (ReqError x)
    let ?new = "[Delivered (ReqError x), ConsoleLog (GotError x)]"
    have d: "deliver env es st p (tr @ ?new) = Some (st', p', tr')"
      using Cons.prems ReqError by simp
    from Cons.IH[OF d] obtain rest where rest: "tr' = (tr @ ?new) @ rest"
      "count_list rest SinkClose = count_list es ResClose"
      "count_list rest (Delivered ResClose) = count_list es ResClose"
      "requests rest = []" "closes_on_signal rest"
      "no_report_before_close (tr @ ?new) \<longrightarrow> no_report_before_close tr'"
      "(p = Resolved \<longrightarrow> Delivered OutClose \<in> set (tr @ ?new)) \<longrightarrow>
         (p' = Resolved \<longrightarrow> Delivered OutClose \<in> set tr')" by blast
    have a: "no_report_before_close tr \<longrightarrow> no_report_before_close tr'"
      using rest(6) nrbc_append[of tr ?new] by simp
    have b: "(p = Resolved \<longrightarrow> Delivered OutClose \<in> set tr) \<longrightarrow>
               (p' = Resolved \<longrightarrow> Delivered OutClose \<in> set tr')"
      using rest(7) by (auto simp: settle_def)
    show ?thesis
      using rest(1-5) a b ReqError
      by (intro exI[of _ "?new @ rest"]) (simp add: count_Stdout requests_append requests_Stdout completion_props
             closes_on_signal_completion closes_on_signal_Stdout)
  qed
qed

lemma deliver_data_only:
  assumes "deliver env (map Data ds) st p tr = Some (st', p', tr')"
  shows "p' = p \<and> sink_writes tr' = sink_writes tr @ ds
           \<and> deliver env (map Data ds @ es) st p tr = deliver env es st' p tr'"
  using assms
proof (induction ds arbitrary: st tr)
  case Nil
  then show ?case by simp
next
  case (Cons data ds)
  from Cons.prems obtain y where y: "onData data st (tr @ [Delivered (Data data)]) = Some y"
    by (cases "onData data st (tr @ [Delivered (Data data)])") auto
  from onData_result[OF y] obtain st1 ws where
    st1: "y = Inr (st1, (tr @ [Delivered (Data data)]) @ map Stdout ws @ [SinkWrite data])" by blast
  let ?tr1 = "(tr @ [Delivered (Data data)]) @ map Stdout ws @ [SinkWrite data]"
  have d: "deliver env (map Data ds) st1 p ?tr1 = Some (st', p', tr')"
    using Cons.prems y st1 by simp
  from Cons.IH[OF d] have "p' = p" "sink_writes tr' = sink_writes ?tr1 @ ds"
    "deliver env (map Data ds @ es) st1 p ?tr1 = deliver env es st' p tr'" by simp_all
  moreover have "sink_writes ?tr1 = sink_writes tr @ [data]"
    by (simp add: sink_writes_append sink_writes_Stdout)
  ultimately show ?case using y st1 by simp
qed

lemma deliver_data_returns:
  assumes inv: "totalSize st = Fin t" "0 < t" "doneSize st = Fin (of_nat d)"
      "totalDots st = Fin 100" "currentDots st = Fin c"
    and bound: "d + sum_list (map length ds) \<le> 2 ^ 53"
      "of_nat (d + sum_list (map length ds)) \<le> 2 ^ 46 * t"
  shows "\<exists>r. deliver env (map Data ds) st p tr = Some r"
  using assms
proof (induction ds arbitrary: st tr d c)
  case Nil
  then show ?case by simp
next
  case (Cons data ds)
  have b1: "d + length data \<le> 2 ^ 53" using Cons.prems(6) by simp
  have "(of_nat (d + length data) :: rat) \<le> of_nat (d + sum_list (map length (data # ds)))"
    by (simp only: of_nat_le_iff) simp
  then have b2: "of_nat (d + length data) \<le> 2 ^ 46 * t" using Cons.prems(7) by simp
  from onData_ok_dots[OF Cons.prems(1-5) b1 b2, of "tr @ [Delivered (Data data)]"] obtain st' ws where
    r: "onData data st (tr @ [Delivered (Data data)]) =
          Some (Inr (st', (tr @ [Delivered (Data data)]) @ map Stdout ws @ [SinkWrite data]))"
       "doneSize st' = Fin (of_nat (d + length data))"
       "currentDots st' = Fin (of_int (progress_units (d + length data) t))"
       "totalSize st' = Fin t" "totalDots st' = Fin 100"
    by blast
  have "\<exists>r. deliver env (map Data ds) st' p
              ((tr @ [Delivered (Data data)]) @ map Stdout ws @ [SinkWrite data]) = Some r"
    using Cons.prems(6,7) by (intro Cons.IH[OF r(4) Cons.prems(2) r(2) r(5) r(3)]) (simp_all add: add.assoc)
  then show ?case using r(1) by simp
qed

subsection \<open>Redirects and resolution\<close>

lemma hop_action_props:
  assumes "hop_action a"
  shows "\<not> is_report a" "a \<noteq> SinkClose" "a \<noteq> Delivered e" "sink_writes [a] = []"
  using assms by (cases a rule: hop_action.cases; simp)+

lemma quiet_props:
  assumes "quiet tr"
  shows "sink_writes tr = []" "count_list tr SinkClose = 0" "count_list tr (Delivered e) = 0"
    "list_all (\<lambda>a. \<not> is_report a) tr"
proof -
  have "sink_writes tr = [] \<and> count_list tr SinkClose = 0 \<and> count_list tr (Delivered e) = 0
          \<and> list_all (\<lambda>a. \<not> is_report a) tr"
    using assms unfolding quiet_def
  proof (induction tr)
    case Nil
    show ?case by simp
  next
    case (Cons a tr)
    then have h: "hop_action a" and IH: "sink_writes tr = [] \<and> count_list tr SinkClose = 0
        \<and> count_list tr (Delivered e) = 0 \<and> list_all (\<lambda>a. \<not> is_report a) tr" by simp_all
    have "sink_writes (a # tr) = sink_writes [a] @ sink_writes tr"
      using sink_writes_append[of "[a]" tr] by simp
    then show ?case using hop_action_props[OF h] IH by simp
  qed
  then show "sink_writes tr = []" "count_list tr SinkClose = 0" "count_list tr (Delivered e) = 0"
    "list_all (\<lambda>a. \<not> is_report a) tr" by simp_all
qed

lemma quiet_closes_on_signal: "quiet tr \<Longrightarrow> closes_on_signal tr"
  unfolding quiet_def
proof (induction tr)
  case Nil
  show ?case by simp
next
  case (Cons a tr)
  then have "hop_action a" "closes_on_signal tr" by simp_all
  then show ?case by (cases a rule: hop_action.cases) simp_all
qed

lemma quiet_delivered: "quiet tr \<Longrightarrow> delivered tr = []"
  unfolding quiet_def
proof (induction tr)
  case Nil
  show ?case by simp
next
  case (Cons a tr)
  then have "hop_action a" "delivered tr = []" by simp_all
  then show ?case by (cases a rule: hop_action.cases) simp_all
qed

lemma nrbc_no_reports: "list_all (\<lambda>a. \<not> is_report a) tr \<Longrightarrow> no_report_before_close tr"
  using nrbc_append[of "[]" tr] by (simp add: no_report_before_close_def)

lemma redirect_step:
  assumes "https_request env url = Inr (Responded res)"
    "redirect_target (location res) = Some u" "parseURL env u = Some pu"
  shows "downloadToStream env url tr =
           downloadToStream env u
             (tr @ Request url # debug env (RedirectedTo (hostname pu)) @ [Destroy url])"
  using assms by (simp add: downloadToStream.simps[of env url])

lemma terminal_step:
  assumes "https_request env url = Inr (Responded res)" "redirect_target (location res) = None"
  shows "downloadToStream env url tr = transfer env url res (tr @ [Request url])"
  using assms by (simp add: downloadToStream.simps[of env url])

lemma redirects_follow:
  assumes "redirects env url us"
  shows "\<exists>hops. (\<forall>tr. downloadToStream env url tr = downloadToStream env (last (url # us)) (tr @ hops))
           \<and> requests hops = butlast (url # us) \<and> quiet hops
           \<and> destroyed hops = butlast (url # us)"
  using assms
proof (induction us arbitrary: url)
  case Nil
  show ?case by (intro exI[of _ "[]"]) (simp add: quiet_def)
next
  case (Cons u us)
  from Cons.prems obtain res pu where
    r: "https_request env url = Inr (Responded res)" "redirect_target (location res) = Some u"
       "parseURL env u = Some pu" "redirects env u us"
    by (auto split: sum.splits reply.splits)
  from Cons.IH[OF r(4)] obtain hops where
    h: "\<forall>tr. downloadToStream env u tr = downloadToStream env (last (u # us)) (tr @ hops)"
       "requests hops = butlast (u # us)" "quiet hops" "destroyed hops = butlast (u # us)"
    by blast
  let ?new = "Request url # debug env (RedirectedTo (hostname pu)) @ [Destroy url]"
  have "downloadToStream env url tr = downloadToStream env (last (url # u # us)) (tr @ ?new @ hops)" for tr
    using redirect_step[OF r(1-3), of tr] h(1) by simp
  moreover have "requests (?new @ hops) = butlast (url # u # us)"
    using h(2) by (simp add: requests_append debug_def)
  moreover have "quiet (?new @ hops)" using h(3) by (simp add: quiet_def debug_def)
  moreover have "destroyed (?new @ hops) = butlast (url # u # us)"
    using h(4) by (simp add: destroyed_append debug_def)
  ultimately show ?case by blast
qed

lemma transfer_rejects_status:
  "statusCode res \<noteq> 200 \<Longrightarrow>
     transfer env url res tr = Some (Rejected (UnexpectedStatus (statusCode res) url), tr)"
  by (simp add: transfer_def)

lemma transfer_200:
  assumes "statusCode res = 200"
  shows "transfer env url res tr =
           map_option snd
             (deliver env (events res) (initial_state res) Pending
                (tr @ map Stdout ([Str [13, theme_start]] # replicate 13 [Str [theme_filler]]
                    @ [Str [theme_end, 32] # suffix (initial_state res)])))"
  using assms by (simp add: transfer_def showProgress_initial)

lemma transfer_resolved:
  assumes "transfer env url res tr = Some (Resolved, tr')" "quiet tr0" "tr = tr0 @ [Request url]"
  shows "Delivered OutClose \<in> set tr' \<and> no_report_before_close tr'
           \<and> count_list tr' SinkClose = count_list tr' (Delivered ResClose)
           \<and> closes_on_signal tr'"
proof -
  have s: "statusCode res = 200" using assms(1) by (cases "statusCode res = 200") (simp_all add: transfer_def)
  define bar where "bar = [Str [13, theme_start]] # replicate 13 [Str [theme_filler]]
                    @ [Str [theme_end, 32] # suffix (initial_state res)]"
  from assms(1) obtain st' where
    d: "deliver env (events res) (initial_state res) Pending (tr @ map Stdout bar) = Some (st', Resolved, tr')"
    unfolding transfer_200[OF s] bar_def by auto
  from deliver_inv[OF d] obtain rest where rest: "tr' = (tr @ map Stdout bar) @ rest"
    "count_list rest SinkClose = count_list (events res) ResClose"
    "count_list rest (Delivered ResClose) = count_list (events res) ResClose"
    "no_report_before_close (tr @ map Stdout bar) \<longrightarrow> no_report_before_close tr'"
    "Delivered OutClose \<in> set tr'" "closes_on_signal rest" by auto
  have nr: "list_all (\<lambda>a. \<not> is_report a) (tr @ map Stdout bar)"
    using quiet_props(4)[OF assms(2)] not_report_Stdout[of bar] by (simp add: assms(3))
  have c: "count_list (tr @ map Stdout bar) SinkClose = 0"
    "count_list (tr @ map Stdout bar) (Delivered ResClose) = 0"
    using quiet_props(2,3)[OF assms(2)] by (simp_all add: assms(3) count_Stdout)
  have a1: "closes_on_signal (tr0 @ [Request url])"
    by (rule closes_on_signal_append[OF quiet_closes_on_signal[OF assms(2)]]) simp
  have a2: "closes_on_signal (map Stdout bar @ rest)"
    using rest(6) by (simp add: closes_on_signal_Stdout)
  have "closes_on_signal ((tr0 @ [Request url]) @ (map Stdout bar @ rest))"
    by (rule closes_on_signal_append[OF a1 a2])
  then have "closes_on_signal tr'" by (simp add: rest(1) assms(3))
  then show ?thesis using rest nrbc_no_reports[OF nr] c by simp
qed

lemma downloadToStream_resolved:
  assumes "downloadToStream env url tr = Some (Resolved, tr')" "quiet tr"
  shows "Delivered OutClose \<in> set tr' \<and> no_report_before_close tr'
           \<and> count_list tr' SinkClose = count_list tr' (Delivered ResClose)
           \<and> closes_on_signal tr'"
proof -
  let ?Q = "\<lambda>tr'. Delivered OutClose \<in> set tr' \<and> no_report_before_close tr'
           \<and> count_list tr' SinkClose = count_list tr' (Delivered ResClose)
           \<and> closes_on_signal tr'"
  let ?P = "\<lambda>env url tr y. quiet tr \<longrightarrow> fst y = Resolved \<longrightarrow> ?Q (snd y)"
  have "?P env url tr (Resolved, tr')"
  proof (rule downloadToStream.raw_induct[where P = ?P, OF _ assms(1)])
    fix f env url tr y
    assume IH: "\<And>env url tr y. f env url tr = Some y \<Longrightarrow> ?P env url tr y"
      and eq: "(case https_request env url of
          Inl e \<Rightarrow> Some (Rejected e, tr)
        | Inr (Failed e) \<Rightarrow>
            Some (Rejected (RequestError e), tr @ [Request url, ConsoleLog (GotError e)])
        | Inr (Responded res) \<Rightarrow>
            (case redirect_target (location res) of
               Some redirectURL \<Rightarrow>
                 (case parseURL env redirectURL of
                    None \<Rightarrow> Some (Rejected (InvalidURL redirectURL), tr @ [Request url])
                  | Some u \<Rightarrow>
                      f env redirectURL
                        (tr @ Request url # debug env (RedirectedTo (hostname u)) @ [Destroy url]))
             | None \<Rightarrow> transfer env url res (tr @ [Request url]))) = Some y"
    show "?P env url tr y"
    proof (intro impI)
      assume q: "quiet tr" and r: "fst y = Resolved"
      show "?Q (snd y)"
      proof (cases "https_request env url")
        case (Inl e)
        with eq r show ?thesis by auto
      next
        case (Inr rep)
        show ?thesis
        proof (cases rep)
          case (Failed e)
          with eq r Inr show ?thesis by auto
        next
          case (Responded res)
          show ?thesis
          proof (cases "redirect_target (location res)")
            case None
            with eq Inr Responded have "transfer env url res (tr @ [Request url]) = Some y" by simp
            with r have "transfer env url res (tr @ [Request url]) = Some (Resolved, snd y)"
              by (cases y) simp
            from transfer_resolved[OF this q] show ?thesis by simp
          next
            case (Some redirectURL)
            show ?thesis
            proof (cases "parseURL env redirectURL")
              case None
              with eq r Inr Responded Some show ?thesis by auto
            next
              case (Some u)
              let ?tr = "tr @ Request url # debug env (RedirectedTo (hostname u)) @ [Destroy url]"
              from eq Inr Responded \<open>redirect_target (location res) = Some redirectURL\<close> Some
              have "f env redirectURL ?tr = Some y" by simp
              moreover have "quiet ?tr" using q by (simp add: quiet_def debug_def)
              ultimately show ?thesis using IH r by blast
            qed
          qed
        qed
      qed
    qed
  qed
  with assms(2) show ?thesis by simp
qed

subsection \<open>Transfers that complete, and the example network\<close>

lemma count_Data_ResClose: "count_list (map Data ds) ResClose = 0"
  by (induction ds) simp_all

lemma transfer_data_returns:
  assumes "statusCode res = 200" "content_length res = Some cl" "parseInt cl = Fin (of_nat T)"
    "0 < T" "events res = map Data ds" "sum_list (map length ds) \<le> 2 ^ 46"
  shows "\<exists>r. transfer env url res tr = Some r"
proof -
  let ?t = "of_nat T :: rat"
  have t: "0 < ?t" using assms(4) by simp
  have ts: "totalSize (initial_state res) = Fin ?t" by (simp add: initial_state_simps assms(2,3))
  have ds0: "doneSize (initial_state res) = Fin (of_nat 0)" by (simp add: initial_state_simps)
  have b1: "0 + sum_list (map length ds) \<le> 2 ^ 53"
  proof -
    have "(2::nat) ^ 46 \<le> 2 ^ 53" by simp
    with assms(6) show ?thesis by simp
  qed
  have "(of_nat (sum_list (map length ds)) :: rat) \<le> of_nat (2 ^ 46)"
    using assms(6) by (simp only: of_nat_le_iff)
  moreover have "(2::rat) ^ 46 * 1 \<le> 2 ^ 46 * ?t" using assms(4) by (intro mult_left_mono) simp_all
  ultimately have b2: "of_nat (0 + sum_list (map length ds)) \<le> 2 ^ 46 * ?t" by simp
  from deliver_data_returns[OF ts t ds0 initial_state_simps(3) initial_state_simps(2) b1 b2,
      of env Pending "tr @ map Stdout ([Str [13, theme_start]] # replicate 13 [Str [theme_filler]]
                    @ [Str [theme_end, 32] # suffix (initial_state res)])"]
  obtain r where "deliver env (map Data ds) (initial_state res) Pending
      (tr @ map Stdout ([Str [13, theme_start]] # replicate 13 [Str [theme_filler]]
                    @ [Str [theme_end, 32] # suffix (initial_state res)])) = Some r" by blast
  then show ?thesis unfolding transfer_200[OF assms(1)] assms(5) by simp
qed

lemma transfer_abort:
  assumes "statusCode res = 200" "events res = map Data ds" "transfer env url res tr = Some (p, tr1)"
  shows "p = Pending \<and> sink_writes tr1 = sink_writes tr @ ds
           \<and> transfer env url (res\<lparr>events := map Data ds @ [Aborted]\<rparr>) tr =
               Some (Rejected RequestAborted,
                     tr1 @ [Delivered Aborted, ConsoleWarn RequestAbortedWarning])"
proof -
  define bar where "bar = [Str [13, theme_start]] # replicate 13 [Str [theme_filler]]
                    @ [Str [theme_end, 32] # suffix (initial_state res)]"
  from assms(3) obtain st1 where
    d: "deliver env (map Data ds) (initial_state res) Pending (tr @ map Stdout bar) = Some (st1, p, tr1)"
    unfolding transfer_200[OF assms(1)] bar_def assms(2) by auto
  from deliver_data_only[OF d, of "[Aborted]"] have
    r: "p = Pending" "sink_writes tr1 = sink_writes (tr @ map Stdout bar) @ ds"
       "deliver env (map Data ds @ [Aborted]) (initial_state res) Pending (tr @ map Stdout bar) =
          deliver env [Aborted] st1 Pending tr1" by simp_all
  have i: "initial_state (res\<lparr>events := map Data ds @ [Aborted]\<rparr>) = initial_state res"
    by (simp add: initial_state_def)
  have s: "statusCode (res\<lparr>events := map Data ds @ [Aborted]\<rparr>) = 200" using assms(1) by simp
  show ?thesis
    using r unfolding transfer_200[OF s] i bar_def[symmetric]
    by (simp add: sink_writes_append sink_writes_Stdout settle_def)
qed

lemma transfer_completes:
  assumes "statusCode res = 200" "content_length res = Some cl" "parseInt cl = Fin (of_nat T)"
    "0 < T" "events res = map Data body @ [ResClose, OutClose]"
    "sum_list (map length body) \<le> 2 ^ 46"
  shows "\<exists>new. transfer env url res tr = Some (Resolved, tr @ new) \<and> sink_writes new = body
           \<and> requests new = [] \<and> count_list new SinkClose = 1
           \<and> delivered new = events res \<and> destroyed new = []"
proof -
  define bar where "bar = [Str [13, theme_start]] # replicate 13 [Str [theme_filler]]
                    @ [Str [theme_end, 32] # suffix (initial_state res)]"
  let ?res = "res\<lparr>events := map Data body\<rparr>"
  have i: "initial_state ?res = initial_state res" by (simp add: initial_state_def)
  have "\<exists>r. transfer env url ?res tr = Some r"
    using assms(1-4,6) by (intro transfer_data_returns[where cl = cl and T = T]) simp_all
  then obtain st1 p1 tr1 where
    d: "deliver env (map Data body) (initial_state res) Pending (tr @ map Stdout bar) = Some (st1, p1, tr1)"
    using assms(1) by (auto simp: transfer_200 i bar_def)
  from deliver_data_only[OF d, of "[ResClose, OutClose]"] have
    r: "p1 = Pending" "sink_writes tr1 = sink_writes (tr @ map Stdout bar) @ body"
       "deliver env (map Data body @ [ResClose, OutClose]) (initial_state res) Pending (tr @ map Stdout bar) =
          deliver env [ResClose, OutClose] st1 Pending tr1" by simp_all
  from deliver_inv[OF d] obtain rest where rest: "tr1 = (tr @ map Stdout bar) @ rest"
    "count_list rest SinkClose = 0" "requests rest = []"
    by (auto simp: count_Data_ResClose)
  have sw: "sink_writes rest = body"
    using r(2) by (simp add: rest(1) sink_writes_append sink_writes_Stdout)
  from deliver_delivered[OF d] rest(1) have rd: "delivered rest = map Data body" "destroyed rest = []"
    by auto
  let ?new = "map Stdout bar @ rest @ [Delivered ResClose, SinkClose, Delivered OutClose]
                @ completion env st1"
  have "transfer env url res tr = Some (Resolved, tr @ ?new)"
    using r(3) by (simp add: transfer_200[OF assms(1)] assms(5) bar_def[symmetric] rest(1) settle_def)
  moreover have "sink_writes ?new = body"
    by (simp add: sink_writes_append sink_writes_Stdout sw completion_props)
  moreover have "requests ?new = []"
    by (simp add: requests_append requests_Stdout rest(3) completion_props)
  moreover have "count_list ?new SinkClose = 1"
    by (simp add: count_Stdout rest(2) completion_props)
  moreover have "delivered ?new = events res"
    by (simp add: delivered_append delivered_Stdout rd completion_reads assms(5))
  moreover have "destroyed ?new = []"
    by (simp add: destroyed_append delivered_Stdout rd completion_reads)
  ultimately show ?thesis by blast
qed

lemma download_completes:
  assumes "redirects env url us" "https_request env (last (url # us)) = Inr (Responded res)"
    "redirect_target (location res) = None"
    "statusCode res = 200" "content_length res = Some cl" "parseInt cl = Fin (of_nat T)"
    "0 < T" "events res = map Data body @ [ResClose, OutClose]"
    "sum_list (map length body) \<le> 2 ^ 46"
  shows "\<exists>new. downloadToStream env url tr = Some (Resolved, tr @ new) \<and> sink_writes new = body
           \<and> requests new = url # us \<and> count_list new SinkClose = 1
           \<and> delivered new = events res \<and> destroyed new = butlast (url # us)"
proof -
  from redirects_follow[OF assms(1)] obtain hops where
    h: "\<forall>tr. downloadToStream env url tr = downloadToStream env (last (url # us)) (tr @ hops)"
       "requests hops = butlast (url # us)" "quiet hops"
       "destroyed hops = butlast (url # us)" by blast
  let ?final = "last (url # us)"
  from transfer_completes[OF assms(4-9), of env ?final "tr @ hops @ [Request ?final]"] obtain new where
    n: "transfer env ?final res (tr @ hops @ [Request ?final]) =
          Some (Resolved, (tr @ hops @ [Request ?final]) @ new)"
       "sink_writes new = body" "requests new = []" "count_list new SinkClose = 1"
       "delivered new = events res" "destroyed new = []" by blast
  let ?new = "hops @ [Request ?final] @ new"
  have "downloadToStream env url tr = Some (Resolved, tr @ ?new)"
    using h(1) terminal_step[OF assms(2,3), of "tr @ hops"] n(1) by simp
  moreover have "sink_writes ?new = body"
    using quiet_props(1)[OF h(3)] n(2) by (simp add: sink_writes_append)
  moreover have "requests ?new = url # us"
  proof -
    have "requests ?new = butlast (url # us) @ [last (url # us)]"
      using h(2) n(3) by (simp add: requests_append)
    then show ?thesis by (simp only: append_butlast_last_id[OF list.distinct(2)])
  qed
  moreover have "count_list ?new SinkClose = 1"
    using quiet_props(2)[OF h(3)] n(4) by simp
  moreover have "delivered ?new = events res"
    using quiet_delivered[OF h(3)] n(5) by (simp add: delivered_append)
  moreover have "destroyed ?new = butlast (url # us)"
    using h(4) n(6) by (simp add: destroyed_append)
  ultimately show ?thesis by blast
qed

lemma example_parse:
  "parseURL example_env ''https://a.example/get'' = Some \<lparr>protocol = ''https:'', hostname = ''a.example''\<rparr>"
  "parseURL example_env ''https://b.example/file.bin'' = Some \<lparr>protocol = ''https:'', hostname = ''b.example''\<rparr>"
  "parseURL example_env ''https://b.example/cut.bin'' = Some \<lparr>protocol = ''https:'', hostname = ''b.example''\<rparr>"
  "parseURL example_env ''https://d.example/missing'' = Some \<lparr>protocol = ''https:'', hostname = ''d.example''\<rparr>"
  "parseURL example_env ''https://e.example/get'' = Some \<lparr>protocol = ''https:'', hostname = ''e.example''\<rparr>"
  "parseURL example_env ''http://c.example/file.bin'' = Some \<lparr>protocol = ''http:'', hostname = ''c.example''\<rparr>"
  "parseURL example_env ''https://b.example/stream'' = Some \<lparr>protocol = ''https:'', hostname = ''b.example''\<rparr>"
  by (simp_all add: example_env_def example_parseURL_def)

lemma example_request:
  "https_request example_env ''https://a.example/get'' = Inr (Responded example_redirect)"
  "https_request example_env ''https://b.example/file.bin'' = Inr (Responded example_file)"
  "https_request example_env ''https://b.example/cut.bin'' = Inr (Responded example_cut)"
  "https_request example_env ''https://d.example/missing'' = Inr (Responded example_missing)"
  "https_request example_env ''https://e.example/get'' = Inr (Responded example_http_redirect)"
  "https_request example_env ''http://c.example/file.bin'' = Inl (InvalidProtocol ''http:'')"
  "https_request example_env ''https://b.example/stream'' = Inr (Responded example_stream)"
  by (simp_all add: https_request_def example_parse) (simp_all add: example_env_def example_server_def)

lemma example_redirects:
  "redirects example_env ''https://a.example/get'' [''https://b.example/file.bin'']"
  by (simp add: example_request example_parse example_redirect_def)

lemma parseInt_4: "parseInt ''4'' = Fin (of_nat 4)"
proof -
  have "digits_val ''4'' = 4" by (simp add: digits_val_def)
  moreover have "rd (of_int 4) = Fin (of_int 4)" by (rule rd_int) simp_all
  ultimately show ?thesis by (simp add: parseInt_def is_space_def is_digit_def)
qed

lemma parseInt_0: "parseInt ''0'' = Fin 0"
proof -
  have "digits_val ''0'' = 0" by (simp add: digits_val_def)
  then show ?thesis by (simp add: parseInt_def is_space_def is_digit_def signed_zero_def)
qed

subsection \<open>The request comes first\<close>

lemma transfer_extends:
  assumes "transfer env url res tr = Some (p, tr')" shows "\<exists>rest. tr' = tr @ rest"
proof (cases "statusCode res = 200")
  case False
  with assms show ?thesis by (simp add: transfer_def)
next
  case True
  from assms obtain st' where
    "deliver env (events res) (initial_state res) Pending
       (tr @ map Stdout ([Str [13, theme_start]] # replicate 13 [Str [theme_filler]]
                    @ [Str [theme_end, 32] # suffix (initial_state res)])) = Some (st', p, tr')"
    unfolding transfer_200[OF True] by auto
  from deliver_delivered[OF this] show ?thesis by auto
qed

lemma downloadToStream_extends:
  assumes "downloadToStream env url tr = Some y" shows "\<exists>rest. snd y = tr @ rest"
proof (rule downloadToStream.raw_induct[where P = "\<lambda>env url tr y. \<exists>rest. snd y = tr @ rest",
      OF _ assms])
  fix f env url tr y
  assume IH: "\<And>env url tr y. f env url tr = Some y \<Longrightarrow> \<exists>rest. snd y = tr @ rest"
    and eq: "(case https_request env url of
        Inl e \<Rightarrow> Some (Rejected e, tr)
      | Inr (Failed e) \<Rightarrow>
          Some (Rejected (RequestError e), tr @ [Request url, ConsoleLog (GotError e)])
      | Inr (Responded res) \<Rightarrow>
          (case redirect_target (location res) of
             Some redirectURL \<Rightarrow>
               (case parseURL env redirectURL of
                  None \<Rightarrow> Some (Rejected (InvalidURL redirectURL), tr @ [Request url])
                | Some u \<Rightarrow>
                    f env redirectURL
                      (tr @ Request url # debug env (RedirectedTo (hostname u)) @ [Destroy url]))
           | None \<Rightarrow> transfer env url res (tr @ [Request url]))) = Some y"
  show "\<exists>rest. snd y = tr @ rest"
  proof (cases "https_request env url")
    case (Inl e)
    with eq show ?thesis by auto
  next
    case (Inr rep)
    show ?thesis
    proof (cases rep)
      case (Failed e)
      with eq Inr show ?thesis by auto
    next
      case (Responded res)
      show ?thesis
      proof (cases "redirect_target (location res)")
        case None
        with eq Inr Responded have "transfer env url res (tr @ [Request url]) = Some (fst y, snd y)"
          by simp
        from transfer_extends[OF this] show ?thesis by auto
      next
        case (Some redirectURL)
        show ?thesis
        proof (cases "parseURL env redirectURL")
          case None
          with eq Inr Responded Some show ?thesis by auto
        next
          case (Some u)
          from eq Inr Responded \<open>redirect_target (location res) = Some redirectURL\<close> Some
          have "f env redirectURL
                  (tr @ Request url # debug env (RedirectedTo (hostname u)) @ [Destroy url]) = Some y"
            by simp
          from IH[OF this] show ?thesis by auto
        qed
      qed
    qed
  qed
qed

lemma https_request_first:
  assumes "https_request env url = Inr rep" "downloadToStream env url tr = Some (p, tr')"
  shows "\<exists>rest. tr' = tr @ Request url # rest"
proof (cases rep)
  case (Failed e)
  with assms show ?thesis by (auto simp: downloadToStream.simps[of env url])
next
  case (Responded res)
  show ?thesis
  proof (cases "redirect_target (location res)")
    case None
    with assms Responded have "transfer env url res (tr @ [Request url]) = Some (p, tr')"
      by (simp add: downloadToStream.simps[of env url])
    from transfer_extends[OF this] show ?thesis by auto
  next
    case (Some redirectURL)
    show ?thesis
    proof (cases "parseURL env redirectURL")
      case None
      with assms Responded Some show ?thesis by (auto simp: downloadToStream.simps[of env url])
    next
      case (Some u)
      with assms Responded \<open>redirect_target (location res) = Some redirectURL\<close>
      have "downloadToStream env redirectURL
              (tr @ Request url # debug env (RedirectedTo (hostname u)) @ [Destroy url]) = Some (p, tr')"
        by (simp add: downloadToStream.simps[of env url])
      from downloadToStream_extends[OF this] show ?thesis by auto
    qed
  qed
qed

section \<open>The claims\<close>

text \<open>
  C1. As stated the claim fails: a hop whose \<^verbatim>\<open>Location\<close> is an \<^verbatim>\<open>http\<close> address is not
  followed, since every request goes through \<^verbatim>\<open>https.request\<close>. What holds: for every
  chain of \<open>N\<close> hops (any \<open>N\<close>) whose targets parse as URLs and are requested over
  \<^verbatim>\<open>https\<close>, ending in a response of status 200 that declares a positive size and whose
  events are a body of at most \<open>2^46\<close> bytes, the end of the stream and the sink's
  confirmation: the routine requests the \<open>N + 1\<close> URLs in order, resolves, writes to the
  sink exactly the chunks of the last response in the order received, and closes the
  sink once. No body of a redirecting response is read or written: the events handed to
  the handlers are exactly those of the last response, and each of the \<open>N\<close> redirecting
  responses is destroyed.
\<close>

theorem downloadToStream_follows_redirects:
  assumes "redirects env url us"
    and "https_request env (last (url # us)) = Inr (Responded res)"
    and "redirect_target (location res) = None"
    and "statusCode res = 200"
    and "content_length res = Some cl" and "parseInt cl = Fin (of_nat T)" and "0 < T"
    and "events res = map Data body @ [ResClose, OutClose]"
    and "sum_list (map length body) \<le> 2 ^ 46"
  shows "\<exists>tr'. downloadToStream env url [] = Some (Resolved, tr')
           \<and> requests tr' = url # us \<and> sink_writes tr' = body
           \<and> count_list tr' SinkClose = 1
           \<and> delivered tr' = events res \<and> destroyed tr' = butlast (url # us)"
  using download_completes[OF assms, of "[]"] by auto

theorem downloadToStream_follows_redirects_witness:
  "\<exists>tr'. downloadToStream example_env ''https://a.example/get'' [] = Some (Resolved, tr')
         \<and> requests tr' = [''https://a.example/get'', ''https://b.example/file.bin'']
         \<and> sink_writes tr' = [[1, 2], [3, 4]]
         \<and> count_list tr' SinkClose = 1
         \<and> delivered tr' = [Data [1, 2], Data [3, 4], ResClose, OutClose]
         \<and> destroyed tr' = [''https://a.example/get'']"
  using downloadToStream_follows_redirects[of example_env "''https://a.example/get''"
      "[''https://b.example/file.bin'']" example_file "''4''" 4 "[[1, 2], [3, 4]]"]
    example_redirects example_request(2) parseInt_4
  by (simp add: example_file_def)

theorem http_redirect_not_followed:
  "https_request example_env ''https://e.example/get'' = Inr (Responded example_http_redirect)
   \<and> location example_http_redirect = Some ''http://c.example/file.bin''
   \<and> server example_env ''http://c.example/file.bin'' = Responded example_file
   \<and> location example_file = None \<and> statusCode example_file = 200
   \<and> downloadToStream example_env ''https://e.example/get'' [] =
       Some (Rejected (InvalidProtocol ''http:''),
             [Request ''https://e.example/get'', ConsoleLog (RedirectedTo ''c.example''),
              Destroy ''https://e.example/get''])"
proof -
  have "downloadToStream example_env ''https://e.example/get'' [] =
          downloadToStream example_env ''http://c.example/file.bin''
            ([] @ Request ''https://e.example/get''
               # debug example_env (RedirectedTo (hostname \<lparr>protocol = ''http:'', hostname = ''c.example''\<rparr>))
               @ [Destroy ''https://e.example/get''])"
    by (rule redirect_step[OF example_request(5)])
       (simp_all add: example_http_redirect_def example_parse)
  then show ?thesis
    by (simp add: example_request downloadToStream.simps[of _ "''http://c.example/file.bin''"]
          debug_def example_http_redirect_def example_file_def)
       (simp add: example_env_def example_server_def example_file_def)
qed

text \<open>
  C2. As stated the claim fails for a declared total of 0: no chunk arrives, the bytes
  received equal the total from the start, and the unit count stays 0. For a declared
  total \<open>T\<close> with \<open>0 < T \<le> 2^53\<close> (the range in which JavaScript numbers count bytes
  exactly) and every sequence of chunks whose sizes sum to \<open>T\<close>: every call of \<^verbatim>\<open>onData\<close>
  returns, the unit counts after the chunks are natural numbers that never decrease
  from the initial 0, and the last one is 100.
\<close>

theorem currentDots_monotone_and_full:
  assumes "content_length res = Some cl" and "parseInt cl = Fin (of_nat T)"
    and "0 < T" and "T \<le> 2 ^ 53" and "sum_list (map length ds) = T"
  shows "\<exists>ns. map_option (map currentDots) (states_after ds (initial_state res) tr) =
                 Some (map (\<lambda>n. Fin (of_nat n)) ns)
              \<and> sorted (0 # ns) \<and> ns \<noteq> [] \<and> last ns = 100"
proof -
  let ?t = "of_nat T :: rat"
  let ?sums = "sums_from 0 (map length ds)"
  let ?f = "\<lambda>k. nat (progress_units k ?t)"
  have t: "0 < ?t" using assms(3) by simp
  have ts: "totalSize (initial_state res) = Fin ?t"
    by (simp add: initial_state_simps assms(1,2))
  have ds0: "doneSize (initial_state res) = Fin (of_nat 0)"
    by (simp add: initial_state_simps)
  have b1: "0 + sum_list (map length ds) \<le> 2 ^ 53" using assms(4,5) by simp
  have "?t \<le> 2 ^ 46 * ?t" using t by simp
  then have b2: "of_nat (0 + sum_list (map length ds)) \<le> 2 ^ 46 * ?t" by (simp add: assms(5))
  from states_after_ok[OF ts t ds0 initial_state_simps(3) initial_state_simps(2) b1 b2, of tr]
  obtain sts where sts: "states_after ds (initial_state res) tr = Some sts"
    "map currentDots sts = map (\<lambda>k. Fin (of_int (progress_units k ?t))) ?sums" by blast
  have "Fin (of_int (progress_units k ?t)) = Fin (of_nat (?f k))" for k
    using progress_units_nonneg[OF t, of k] by simp
  then have m: "map currentDots sts = map (\<lambda>n. Fin (of_nat n)) (map ?f ?sums)"
    using sts(2) by (simp add: comp_def)
  have ne: "ds \<noteq> []" using assms(3,5) by auto
  then have sne: "?sums \<noteq> []" by (cases ds) simp_all
  have mono: "?f a \<le> ?f b" if "a \<le> b" for a b
    using progress_units_mono[OF t that] by simp
  have "sorted (map ?f (0 # ?sums))"
    using sums_from_sorted[of 0 "map length ds"] mono
    by (simp only: sorted_map) (rule sorted_wrt_mono_rel[rotated], assumption, simp)
  then have srt: "sorted (0 # map ?f ?sums)" using progress_units_0[OF t] by simp
  have "last ?sums = last (0 # ?sums)" using sne by simp
  also have "\<dots> = T" using sums_from_last[of 0 "map length ds"] by (simp only: assms(5))
  finally have "last (map ?f ?sums) = ?f T" using sne by (simp add: last_map)
  then have lst: "last (map ?f ?sums) = 100" using progress_units_full[OF assms(3)] by simp
  show ?thesis using sts(1) m srt sne lst by (intro exI[of _ "map ?f ?sums"]) simp
qed

theorem currentDots_monotone_and_full_witness:
  "\<exists>ns. map_option (map currentDots) (states_after [[1, 2], [3, 4]] (initial_state example_file) []) =
           Some (map (\<lambda>n. Fin (of_nat n)) ns)
        \<and> sorted (0 # ns) \<and> ns \<noteq> [] \<and> last ns = 100"
  using currentDots_monotone_and_full[of example_file "''4''" 4 "[[1, 2], [3, 4]]" "[]"] parseInt_4
  by (simp add: example_file_def)

theorem empty_download_shows_no_progress:
  "totalSize (initial_state example_empty) = Fin 0
   \<and> sum_list (map length ([] :: buffer list)) = 0
   \<and> states_after [] (initial_state example_empty) [] = Some []
   \<and> doneSize (initial_state example_empty) = totalSize (initial_state example_empty)
   \<and> currentDots (initial_state example_empty) = Fin 0
   \<and> map_option fst (deliver example_env (events example_empty) (initial_state example_empty) Pending [])
       = Some (initial_state example_empty)"
  by (simp add: initial_state_simps example_empty_def parseInt_0 settle_def)

text \<open>
  C3. The claim: without a usable \<^verbatim>\<open>content-length\<close> the transfer still completes and
  every received byte reaches the sink. The code does not: for a response of status 200
  without the header, the first chunk of data, whatever it holds and whatever follows
  it, is never written, and the routine never comes back. So it is for the stream of the
  example network, which sends two bytes and ends.
\<close>

theorem transfer_without_content_length_never_returns:
  "transfer env url
     \<lparr>location = loc, content_length = None, statusCode = 200, events = Data data # es\<rparr> tr
   = None
   \<and> downloadToStream example_env ''https://b.example/stream'' [] = None"
proof -
  have hang: "transfer env url
     \<lparr>location = loc, content_length = None, statusCode = 200, events = Data data # es\<rparr> tr
     = None" for env url loc data es tr
  proof -
    let ?res = "\<lparr>location = loc, content_length = None, statusCode = 200,
                  events = Data data # es\<rparr>"
    have "totalSize (initial_state ?res) = NaN"
      by (simp add: initial_state_def parseInt_empty)
    then have "onData data (initial_state ?res) tr' = None" for tr'
      by (rule onData_NaN)
    then show ?thesis
      by (simp add: transfer_def showProgress_initial)
  qed
  have "downloadToStream example_env ''https://b.example/stream'' [] =
          transfer example_env ''https://b.example/stream'' example_stream
            ([] @ [Request ''https://b.example/stream''])"
    by (rule terminal_step[OF example_request(7)]) (simp add: example_stream_def)
  then show ?thesis using hang by (simp add: example_stream_def)
qed

text \<open>
  C4. For every response without redirect target whose status is not 200, reached
  directly or after any chain of redirects, the routine fails with \<open>UnexpectedStatus\<close>
  carrying that status and the URL that was requested last. Nothing happens after the
  last request: the trace ends there, no chunk is written to the sink and the sink is
  not closed.
\<close>

theorem unexpected_status_leaves_sink_untouched:
  assumes "redirects env url us"
    and "https_request env (last (url # us)) = Inr (Responded res)"
    and "redirect_target (location res) = None"
    and "statusCode res \<noteq> 200"
  shows "\<exists>new. downloadToStream env url tr =
                  Some (Rejected (UnexpectedStatus (statusCode res) (last (url # us))), tr @ new)
           \<and> requests new = url # us \<and> sink_writes new = [] \<and> count_list new SinkClose = 0
           \<and> last new = Request (last (url # us))"
proof -
  from redirects_follow[OF assms(1)] obtain hops where
    h: "\<forall>tr. downloadToStream env url tr = downloadToStream env (last (url # us)) (tr @ hops)"
       "requests hops = butlast (url # us)" "quiet hops" by blast
  let ?final = "last (url # us)"
  let ?new = "hops @ [Request ?final]"
  have "downloadToStream env url tr =
          Some (Rejected (UnexpectedStatus (statusCode res) ?final), tr @ ?new)"
    using h(1) terminal_step[OF assms(2,3), of "tr @ hops"] transfer_rejects_status[OF assms(4)]
    by simp
  moreover have "requests ?new = butlast (url # us) @ [last (url # us)]"
    using h(2) by (simp add: requests_append)
  then have "requests ?new = url # us"
    by (simp only: append_butlast_last_id[OF list.distinct(2)])
  moreover have "sink_writes ?new = []" "count_list ?new SinkClose = 0"
    using quiet_props(1,2)[OF h(3)] by (simp_all add: sink_writes_append)
  ultimately show ?thesis by (intro exI[of _ ?new]) simp
qed

theorem unexpected_status_leaves_sink_untouched_witness:
  "\<exists>new. downloadToStream example_env ''https://d.example/missing'' [] =
            Some (Rejected (UnexpectedStatus 404 ''https://d.example/missing''), [] @ new)
         \<and> requests new = [''https://d.example/missing''] \<and> sink_writes new = []
         \<and> count_list new SinkClose = 0 \<and> last new = Request ''https://d.example/missing''"
  using unexpected_status_leaves_sink_untouched[of example_env "''https://d.example/missing''" "[]"
      example_missing "[]"] example_request(4)
  by (simp add: example_missing_def)

text \<open>
  C5. Whenever the promise returned by \<^verbatim>\<open>downloadToStream\<close> resolves: the sink's
  confirmation of its closure was delivered before; no report line is in the trace
  before that confirmation; and the sink was closed as many times as the end of the
  response's stream was signalled, each time right after the delivery of that signal
  and nowhere else. A response signals the end of its stream once, so the sink is
  closed once.
\<close>

theorem resolves_only_after_sink_closed:
  assumes "downloadToStream env url [] = Some (Resolved, tr')"
  shows "Delivered OutClose \<in> set tr' \<and> no_report_before_close tr'
           \<and> count_list tr' SinkClose = count_list tr' (Delivered ResClose)
           \<and> closes_on_signal tr'"
  using downloadToStream_resolved[OF assms] by (simp add: quiet_def)

theorem resolves_only_after_sink_closed_witness:
  "\<exists>tr'. downloadToStream example_env ''https://a.example/get'' [] = Some (Resolved, tr')
         \<and> Delivered OutClose \<in> set tr' \<and> no_report_before_close tr'
         \<and> count_list tr' SinkClose = count_list tr' (Delivered ResClose)
         \<and> closes_on_signal tr' \<and> count_list tr' SinkClose = 1"
proof -
  from download_completes[of example_env "''https://a.example/get''"
      "[''https://b.example/file.bin'']" example_file "''4''" 4 "[[1, 2], [3, 4]]" "[]"]
    example_redirects example_request(2) parseInt_4
  obtain tr' where tr': "downloadToStream example_env ''https://a.example/get'' [] = Some (Resolved, tr')"
    "count_list tr' SinkClose = 1"
    by (auto simp: example_file_def)
  from resolves_only_after_sink_closed[OF tr'(1)] tr' show ?thesis by blast
qed

text \<open>
  C6. Let a response of status 200 without redirect target deliver chunks of data and
  then the abort signal, and let the chunks have been forwarded, that is, let the
  transfer of the chunks alone come back (with the trace \<open>tr1\<close>). Then the routine fails
  with the error of the aborted request, its trace is \<open>tr1\<close> followed by the signal and
  the warning, and the sink holds exactly the chunks forwarded, before and after the
  failure: nothing is taken back.
\<close>

theorem abort_keeps_forwarded_bytes:
  assumes "https_request env url = Inr (Responded res)"
    and "redirect_target (location res) = None"
    and "statusCode res = 200"
    and "events res = map Data ds @ [Aborted]"
    and "transfer env url (res\<lparr>events := map Data ds\<rparr>) [Request url] = Some (p, tr1)"
  shows "downloadToStream env url [] =
           Some (Rejected RequestAborted,
                 tr1 @ [Delivered Aborted, ConsoleWarn RequestAbortedWarning])
         \<and> sink_writes tr1 = ds
         \<and> sink_writes (tr1 @ [Delivered Aborted, ConsoleWarn RequestAbortedWarning]) = ds"
proof -
  let ?res = "res\<lparr>events := map Data ds\<rparr>"
  have "?res\<lparr>events := map Data ds @ [Aborted]\<rparr> = res" using assms(4) by simp
  with transfer_abort[of ?res ds env url "[Request url]" p tr1] assms(3,5)
  have "sink_writes tr1 = ds"
    "transfer env url res [Request url] =
       Some (Rejected RequestAborted, tr1 @ [Delivered Aborted, ConsoleWarn RequestAbortedWarning])"
    by simp_all
  then show ?thesis
    using terminal_step[OF assms(1,2), of "[]"] by (simp add: sink_writes_append)
qed

theorem abort_keeps_forwarded_bytes_witness:
  "\<exists>tr1. downloadToStream example_env ''https://b.example/cut.bin'' [] =
            Some (Rejected RequestAborted,
                  tr1 @ [Delivered Aborted, ConsoleWarn RequestAbortedWarning])
         \<and> sink_writes tr1 = [[1, 2], [3]]
         \<and> sink_writes (tr1 @ [Delivered Aborted, ConsoleWarn RequestAbortedWarning]) = [[1, 2], [3]]"
proof -
  let ?url = "''https://b.example/cut.bin''"
  have "\<exists>r. transfer example_env ?url (example_cut\<lparr>events := map Data [[1, 2], [3]]\<rparr>) [Request ?url]
          = Some r"
    using parseInt_4
    by (intro transfer_data_returns[where cl = "''4''" and T = 4 and ds = "[[1, 2], [3]]"])
       (simp_all add: example_cut_def)
  then obtain p tr1 where
    "transfer example_env ?url (example_cut\<lparr>events := map Data [[1, 2], [3]]\<rparr>) [Request ?url]
       = Some (p, tr1)" by auto
  from abort_keeps_forwarded_bytes[OF example_request(3) _ _ _ this]
  show ?thesis by (auto simp: example_cut_def)
qed

text \<open>
  C7. As stated the claim fails: the bytes received are not held below the declared
  total, and 20 bytes received of a declared 10 leave \<^verbatim>\<open>doneSize\<close> at 20. What holds, for
  every sequence of chunks, every declared total and up to \<open>2^53\<close> bytes: whenever the
  calls of \<^verbatim>\<open>onData\<close> return, \<^verbatim>\<open>doneSize\<close> after each chunk is the running total of the
  sizes received, so it never decreases, and it ends at the sum of all sizes, whatever
  the declared total is.
\<close>

theorem doneSize_is_running_total:
  assumes "states_after ds st tr = Some sts"
    and "doneSize st = Fin (of_nat d)"
    and "d + sum_list (map length ds) \<le> 2 ^ 53"
  shows "map doneSize sts = map (\<lambda>k. Fin (of_nat k)) (sums_from d (map length ds))
         \<and> sorted (d # sums_from d (map length ds))
         \<and> last (d # sums_from d (map length ds)) = d + sum_list (map length ds)"
  using states_after_doneSize[OF assms] sums_from_sorted[of d "map length ds"]
    sums_from_last[of d "map length ds"]
  by simp

theorem doneSize_is_running_total_witness:
  "map_option (map doneSize) (states_after [[1, 2], [3, 4]] (initial_state example_file) []) =
     Some [Fin 2, Fin 4]"
proof -
  from states_after_ok[of "initial_state example_file" 4 0 0 "[[1, 2], [3, 4]]" "[]"] parseInt_4
  obtain sts where sts: "states_after [[1, 2], [3, 4]] (initial_state example_file) [] = Some sts"
    by (auto simp: initial_state_simps example_file_def)
  from doneSize_is_running_total[OF sts, of 0]
  have "map doneSize sts = [Fin 2, Fin 4]" by (simp add: initial_state_simps)
  then show ?thesis unfolding sts by simp
qed

theorem doneSize_exceeds_declared_total:
  "totalSize (initial_state (example_file\<lparr>content_length := Some ''10''\<rparr>)) = Fin 10
   \<and> map_option (map doneSize)
       (states_after [replicate 20 0] (initial_state (example_file\<lparr>content_length := Some ''10''\<rparr>)) [])
     = Some [Fin 20]
   \<and> js_gt (Fin 20) (Fin 10)"
proof -
  let ?st = "initial_state (example_file\<lparr>content_length := Some ''10''\<rparr>)"
  have t: "totalSize ?st = Fin 10" by (simp add: initial_state_simps parseInt_10)
  from states_after_ok[of ?st 10 0 0 "[replicate 20 0]" "[]"] t
  obtain sts where sts: "states_after [replicate 20 0] ?st [] = Some sts"
    by (auto simp: initial_state_simps)
  from states_after_doneSize[OF sts, of 0] have "map doneSize sts = [Fin 20]"
    by (simp add: initial_state_simps)
  then show ?thesis unfolding sts using t by (simp add: js_gt_def)
qed

text \<open>
  C8. For every unit count \<open>n\<close> from 0 to the budget of 100, \<^verbatim>\<open>showProgress\<close> writes the
  start marker, then exactly 13 cells, then the end marker with the size suffix. Cell
  \<open>k\<close> is the \<open>k\<close>-th of the nine glyphs of the theme, it stands for \<open>k \<le> 8\<close> eighths, and
  the eighths of the 13 cells add up to \<open>n\<close>.
\<close>

theorem showProgress_bar_cells:
  assumes "currentDots st = Fin (of_nat n)" and "n \<le> 100" and "totalDots st = Fin 100"
  shows "\<exists>ks. showProgress st =
                 Some (Inr ([Str [13, theme_start]] # map glyph ks
                            @ [Str [theme_end, 32] # suffix st]))
              \<and> length ks = 13 \<and> list_all (\<lambda>k. k \<le> 8) ks \<and> sum_list ks = n
              \<and> length theme_chunks = 9"
proof -
  let ?ks = "cells n @ replicate (13 - length (cells n)) 0"
  have "length (cells n) \<le> 13" using assms(2) by (simp add: cells_length)
  then have len: "length ?ks = 13" by simp
  have g0: "glyph 0 = [Str [theme_filler]]"
    by (simp add: glyph_def theme_chunks_def theme_filler_def)
  have "showProgress st =
          Some (Inr ([Str [13, theme_start]] # map glyph ?ks @ [Str [theme_end, 32] # suffix st]))"
    using showProgress_nat[OF assms(1,3)] assms(2) by (simp add: g0)
  moreover have "list_all (\<lambda>k. k \<le> 8) ?ks"
    using cells_range[of _ n] by (auto simp: list_all_iff)
  moreover have "sum_list ?ks = n" by (simp add: cells_sum)
  moreover have "length theme_chunks = 9" by (simp add: theme_chunks_def)
  ultimately show ?thesis using len by blast
qed

theorem showProgress_bar_cells_witness:
  "\<exists>ks. showProgress \<lparr>doneSize = Fin 1280, totalSize = Fin 2560, currentDots = Fin (of_nat 50),
                         totalDots = Fin 100, prefix = []\<rparr> =
            Some (Inr ([Str [13, theme_start]] # map glyph ks
                       @ [Str [theme_end, 32]
                          # suffix \<lparr>doneSize = Fin 1280, totalSize = Fin 2560,
                                     currentDots = Fin (of_nat 50), totalDots = Fin 100,
                                     prefix = []\<rparr>]))
         \<and> length ks = 13 \<and> list_all (\<lambda>k. k \<le> 8) ks \<and> sum_list ks = 50
         \<and> length theme_chunks = 9"
  using showProgress_bar_cells[of "\<lparr>doneSize = Fin 1280, totalSize = Fin 2560,
          currentDots = Fin (of_nat 50), totalDots = Fin 100, prefix = []\<rparr>" 50]
  by simp

text \<open>
  C9. As stated the claim fails for the scheme \<^verbatim>\<open>http\<close>: the routine sends every request
  through \<^verbatim>\<open>https.request\<close>, which refuses any other protocol. What holds, for every URL
  that parses: with the protocol \<^verbatim>\<open>https:\<close> the GET request is issued, \<^verbatim>\<open>downloadToStream\<close>
  goes on with the server's reply (a failed request is rejected, a redirect is followed,
  any other response is transferred, each after the request), and whenever it comes back
  the request is the first thing it has done; with any other protocol it fails with the
  error of the invalid protocol and nothing is requested.
\<close>

theorem request_issued_for_https_only:
  assumes "parseURL env url = Some u"
  shows "(protocol u = ''https:'' \<longrightarrow>
            https_request env url = Inr (server env url)
          \<and> downloadToStream env url tr =
              (case server env url of
                 Failed e \<Rightarrow>
                   Some (Rejected (RequestError e), tr @ [Request url, ConsoleLog (GotError e)])
               | Responded res \<Rightarrow>
                   (case redirect_target (location res) of
                      None \<Rightarrow> transfer env url res (tr @ [Request url])
                    | Some redirectURL \<Rightarrow>
                        (case parseURL env redirectURL of
                           None \<Rightarrow> Some (Rejected (InvalidURL redirectURL), tr @ [Request url])
                         | Some v \<Rightarrow>
                             downloadToStream env redirectURL
                               (tr @ Request url # debug env (RedirectedTo (hostname v))
                                   @ [Destroy url]))))
          \<and> (\<forall>p tr'. downloadToStream env url tr = Some (p, tr') \<longrightarrow>
                (\<exists>rest. tr' = tr @ Request url # rest)))
         \<and> (protocol u \<noteq> ''https:'' \<longrightarrow>
              downloadToStream env url tr = Some (Rejected (InvalidProtocol (protocol u)), tr))"
proof (cases "protocol u = ''https:''")
  case True
  then have r: "https_request env url = Inr (server env url)"
    using assms by (simp add: https_request_def)
  have "downloadToStream env url tr =
              (case server env url of
                 Failed e \<Rightarrow>
                   Some (Rejected (RequestError e), tr @ [Request url, ConsoleLog (GotError e)])
               | Responded res \<Rightarrow>
                   (case redirect_target (location res) of
                      None \<Rightarrow> transfer env url res (tr @ [Request url])
                    | Some redirectURL \<Rightarrow>
                        (case parseURL env redirectURL of
                           None \<Rightarrow> Some (Rejected (InvalidURL redirectURL), tr @ [Request url])
                         | Some v \<Rightarrow>
                             downloadToStream env redirectURL
                               (tr @ Request url # debug env (RedirectedTo (hostname v))
                                   @ [Destroy url]))))"
    by (simp add: downloadToStream.simps[of env url] r split: reply.splits option.splits)
  moreover have "\<forall>p tr'. downloadToStream env url tr = Some (p, tr') \<longrightarrow>
                (\<exists>rest. tr' = tr @ Request url # rest)"
    using https_request_first[OF r] by blast
  ultimately show ?thesis using True r by simp
next
  case False
  then show ?thesis using assms by (simp add: https_request_def downloadToStream.simps[of env url])
qed

theorem request_issued_for_https_only_witness:
  "https_request example_env ''https://b.example/file.bin'' =
     Inr (server example_env ''https://b.example/file.bin'')
   \<and> (\<exists>tr' rest. downloadToStream example_env ''https://b.example/file.bin'' [] = Some (Resolved, tr')
         \<and> tr' = [] @ Request ''https://b.example/file.bin'' # rest
         \<and> sink_writes tr' = [[1, 2], [3, 4]])
   \<and> downloadToStream example_env ''http://c.example/file.bin'' [] =
       Some (Rejected (InvalidProtocol ''http:''), [])"
proof -
  from download_completes[of example_env "''https://b.example/file.bin''" "[]" example_file
      "''4''" 4 "[[1, 2], [3, 4]]" "[]"] example_request(2) parseInt_4
  obtain tr' where tr': "downloadToStream example_env ''https://b.example/file.bin'' [] = Some (Resolved, tr')"
    "sink_writes tr' = [[1, 2], [3, 4]]"
    by (auto simp: example_file_def)
  from request_issued_for_https_only[OF example_parse(2), of "[]"] tr'(1)
  obtain rest where "tr' = [] @ Request ''https://b.example/file.bin'' # rest" by auto
  moreover from request_issued_for_https_only[OF example_parse(2), of "[]"]
  have "https_request example_env ''https://b.example/file.bin'' =
     Inr (server example_env ''https://b.example/file.bin'')" by simp
  moreover from request_issued_for_https_only[OF example_parse(6), of "[]"]
  have "downloadToStream example_env ''http://c.example/file.bin'' [] =
       Some (Rejected (InvalidProtocol ''http:''), [])" by simp
  ultimately show ?thesis using tr' by blast
qed

theorem http_url_rejected:
  "parseURL example_env ''http://c.example/file.bin'' =
     Some \<lparr>protocol = ''http:'', hostname = ''c.example''\<rparr>
   \<and> downloadToStream example_env ''http://c.example/file.bin'' [] =
       Some (Rejected (InvalidProtocol ''http:''), [])"
  by (simp add: example_parse example_request downloadToStream.simps[of _ "''http://c.example/file.bin''"])

text \<open>
  C10. The claim: the loop \<^verbatim>\<open>while (state.currentDots != currentDots)\<close> of \<^verbatim>\<open>onData\<close> ends for
  every chunk after at most one rendering, also when the declared total is NaN. The code
  does not: with a total of NaN the target unit count is NaN, \<^verbatim>\<open>NaN != NaN\<close> stays true
  after the assignment, and the loop renders for ever. For every chunk, every state and
  every trace, \<^verbatim>\<open>onData\<close> on a state whose total is NaN never returns.
\<close>

theorem onData_without_total_never_returns:
  "onData data (st\<lparr>totalSize := NaN\<rparr>) tr = None"
  by (simp add: onData_NaN)

end
